theory Spec2Isabelle
  imports Main "HOL-Library.Sublist"
begin

section \<open>Common vocabulary\<close>

text \<open>
  The Go sources are concurrent: goroutines that talk over channels. Each
  operation is embedded as a labelled transition system. A label names one
  atomic action of one goroutine (or of the environment); \<open>step\<close> functions
  return \<open>None\<close> when the action is not enabled (the goroutine is elsewhere,
  or it is blocked on a channel). An execution is a list of labels (a
  schedule), run from the initial state.
\<close>

text \<open>\<open>rpc.UpSummary_StatusCode\<close>: PENDING = 0, SUCCESS = 1, FAILURE = 2.\<close>

datatype StatusCode = PENDING | SUCCESS | FAILURE

text \<open>A Go \<open>error\<close> value is modelled by its message; \<open>nil\<close> is \<open>None\<close>.\<close>

type_synonym error = string

section \<open>Schedules\<close>

text \<open>
  Running a schedule: the labels are taken one after the other; the run fails
  (\<open>None\<close>) as soon as a label is not enabled.
\<close>

fun run :: "('l \<Rightarrow> 's \<Rightarrow> 's option) \<Rightarrow> 'l list \<Rightarrow> 's \<Rightarrow> 's option" where
  "run stp [] s = Some s"
| "run stp (l # ls) s = (case stp l s of None \<Rightarrow> None | Some s' \<Rightarrow> run stp ls s')"

text \<open>The labels of a finite candidate list that are enabled in a state.\<close>

definition enabled :: "('l \<Rightarrow> 's \<Rightarrow> 's option) \<Rightarrow> 'l list \<Rightarrow> 's \<Rightarrow> 'l list" where
  "enabled stp ls s = filter (\<lambda>l. stp l s \<noteq> None) ls"

section \<open>pkg/cmdline: the cmdline struct and Stop\<close>

text \<open>
  \<open>type cmdline struct { ctx; opts; done chan struct{}; once sync.Once; err error }\<close>.
  Of the channel \<open>done\<close> only whether it is closed matters; \<open>done_closes\<close>
  counts the \<open>close(cli.done)\<close> calls that were executed. \<open>once\<close> is the flag
  of \<open>sync.Once\<close>. \<open>Init\<close> makes the channel; nothing ever assigns \<open>err\<close>.
\<close>

record cmdline =
  done_closed :: bool
  done_closes :: nat
  once :: bool
  err :: "error option"

definition Init :: cmdline where
  "Init = \<lparr>done_closed = False, done_closes = 0, once = False, err = None\<rparr>"

text \<open>\<open>close(cli.done)\<close>: closing a closed channel panics.\<close>

definition close_done :: "cmdline \<Rightarrow> string + cmdline" where
  "close_done cli =
     (if done_closed cli then Inl ''panic: close of closed channel''
      else Inr (cli\<lparr>done_closed := True, done_closes := Suc (done_closes cli)\<rparr>))"

text \<open>
  \<open>func (cli *cmdline) Stop() error { cli.once.Do(func() { close(cli.done) }); return cli.err }\<close>.
  \<open>sync.Once\<close> serialises concurrent callers, so a call is one atomic action.
  The result is a panic (\<open>Inl\<close>) or the new state with the returned error.
\<close>

definition Stop :: "cmdline \<Rightarrow> string + (cmdline \<times> error option)" where
  "Stop cli =
     (if once cli then Inr (cli, err cli)
      else (case close_done cli of
              Inl p \<Rightarrow> Inl p
            | Inr cli' \<Rightarrow> Inr (cli'\<lparr>once := True\<rparr>, err cli')))"

text \<open>\<open>n\<close> calls of \<open>Stop\<close> in a row, collecting what each returns.\<close>

fun Stops :: "nat \<Rightarrow> cmdline \<Rightarrow> string + (cmdline \<times> error option list)" where
  "Stops 0 cli = Inr (cli, [])"
| "Stops (Suc n) cli =
     (case Stop cli of
        Inl p \<Rightarrow> Inl p
      | Inr (cli', r) \<Rightarrow>
          (case Stops n cli' of
             Inl p \<Rightarrow> Inl p
           | Inr (cli'', rs) \<Rightarrow> Inr (cli'', r # rs)))"

section \<open>pkg/rpc: messages, contexts and the generated stream client\<close>

text \<open>
  \<open>UpSummary\<close> carries \<open>StageDesc\<close> and \<open>StatusCode\<close>. \<open>UpRequest\<close> is an opaque
  payload for this code. \<open>UpMessage\<close> is the envelope (a oneof); \<open>GetUpSummary\<close>
  is the generated getter, \<open>nil\<close> when the envelope holds something else.
\<close>

record UpSummary =
  StageDesc :: string
  StatusCode :: StatusCode

datatype UpRequest = UpRequest string

datatype UpMessage = UpMessage_UpRequest UpRequest | UpMessage_UpSummary UpSummary

fun GetUpSummary :: "UpMessage \<Rightarrow> UpSummary option" where
  "GetUpSummary (UpMessage_UpSummary x) = Some x"
| "GetUpSummary (UpMessage_UpRequest r) = None"

text \<open>
  What one call of \<open>Recv()\<close> on the generated stream client returns: a message,
  \<open>io.EOF\<close>, or another error. The server is a script of such results; when
  the script is exhausted \<open>Recv\<close> blocks.
\<close>

datatype recv_result = Msg UpMessage | EOF | RecvErr error

text \<open>
  Contexts. \<open>context.Background()\<close> is never cancelled; the caller's context is
  cancelled when the caller says so (a flag of the state). A blocked gRPC call
  is aborted exactly when the context it was opened with is cancelled.
\<close>

datatype Context = Background | Caller

definition ctx_done :: "bool \<Rightarrow> Context \<Rightarrow> bool" where
  "ctx_done caller_cancelled ctx = (case ctx of Background \<Rightarrow> False | Caller \<Rightarrow> caller_cancelled)"

text \<open>\<open>Recv()\<close> on a stream opened with context \<open>ctx\<close>; \<open>None\<close> means it blocks.\<close>

definition stream_Recv :: "bool \<Rightarrow> Context \<Rightarrow> recv_result list \<Rightarrow> (recv_result \<times> recv_result list) option" where
  "stream_Recv caller_cancelled ctx script =
     (if ctx_done caller_cancelled ctx then Some (RecvErr ''context canceled'', script)
      else (case script of [] \<Rightarrow> None | r # rs \<Rightarrow> Some (r, rs)))"

text \<open>The \<open>fmt.Errorf\<close> wrappers of client.go (\<open>%q\<close> is rendered with plain quotes).\<close>

definition err_dial :: "string \<Rightarrow> error \<Rightarrow> error" where
  "err_dial addr e = ''failed to dial '' @ [CHR 0x22] @ addr @ [CHR 0x22] @ '': '' @ e"

definition err_up_build :: "error \<Rightarrow> error" where
  "err_up_build e = ''rpc error handling up_build: '' @ e"

definition err_up_build_recv :: "error \<Rightarrow> error" where
  "err_up_build_recv e = ''rpc error handling up_build recv: '' @ e"

definition err_up_stream :: "error \<Rightarrow> error" where
  "err_up_stream e = ''rpc error handling up_stream: '' @ e"

definition err_receive :: "error \<Rightarrow> error" where
  "err_receive e = ''failed to receive a summary: '' @ e"

definition err_send :: "error \<Rightarrow> error" where
  "err_send e = ''failed to send an up message: '' @ e"

section \<open>pkg/rpc: UpBuild and up_build\<close>

text \<open>
  Two goroutines: the caller's (\<open>UpBuild\<close>) and the one it starts, which runs
  \<open>up_build\<close>, sends its error on \<open>errc\<close> if there is one, and closes \<open>errc\<close>.

  Program points of the started goroutine: not started; at \<open>rpc.UpBuild(ctx, ...)\<close>;
  at \<open>s.Recv()\<close>; at \<open>outc <- resp\<close> (\<open>outc\<close> of \<open>up_build\<close> is \<open>msgc\<close>, capacity 2);
  at \<open>errc <- err\<close> (unbuffered: it waits for the receiver); at \<open>close(errc)\<close>;
  finished. \<open>up_build\<close> closes \<open>msgc\<close> when it returns from the receive loop
  (the \<open>defer\<close> is registered after the open succeeded).

  Program points of \<open>UpBuild\<close>: at \<open>connect\<close>; at the head of the \<open>for\<close>/\<open>select\<close>;
  at \<open>outc <- msg.GetUpSummary()\<close>; returned (with the error returned). Returning
  from the loop runs the deferred \<open>close(outc)\<close> and \<open>conn.Close()\<close>.
\<close>

datatype b_gpc = G_Idle | G_Open | G_Recv | G_Send UpMessage | G_Errc error | G_CloseErrc | G_Fin

datatype b_mpc = B_Connect | B_Loop | B_Out "UpSummary option" | B_Ret "error option"

record bstate =
  b_addr :: string
  b_dial :: "error option"
  b_open :: "error option"
  b_script :: "recv_result list"
  b_cancelled :: bool
  b_msgc :: "UpMessage list"
  b_msgc_closed :: bool
  b_errc_closed :: bool
  b_msgc_nil :: bool
  b_errc_nil :: bool
  b_g :: b_gpc
  b_m :: b_mpc
  b_out :: "UpSummary option list"
  b_out_closes :: nat
  b_conn_closes :: nat

text \<open>
  The initial state: the address, what \<open>grpc.Dial\<close> and \<open>rpc.UpBuild\<close> will
  answer (\<open>None\<close>: success), and the server's script.
\<close>

definition b_init :: "string \<Rightarrow> error option \<Rightarrow> error option \<Rightarrow> recv_result list \<Rightarrow> bstate" where
  "b_init addr dial opn script =
     \<lparr>b_addr = addr, b_dial = dial, b_open = opn, b_script = script, b_cancelled = False,
      b_msgc = [], b_msgc_closed = False, b_errc_closed = False,
      b_msgc_nil = False, b_errc_nil = False, b_g = G_Idle, b_m = B_Connect,
      b_out = [], b_out_closes = 0, b_conn_closes = 0\<rparr>"

text \<open>\<open>rpcctx := context.Background()\<close>: the context that both operations hand to the RPC.\<close>

definition rpcctx :: Context where
  "rpcctx = Background"

text \<open>A \<open>return\<close> from the loop of \<open>UpBuild\<close>, with its two deferred calls.\<close>

definition b_return :: "error option \<Rightarrow> bstate \<Rightarrow> bstate" where
  "b_return r s = s\<lparr>b_m := B_Ret r, b_out_closes := Suc (b_out_closes s),
                    b_conn_closes := Suc (b_conn_closes s)\<rparr>"

text \<open>
  Labels. \<open>BCancel\<close>: the caller cancels \<open>ctx\<close>. \<open>BConnect\<close>: \<open>connect\<close>, and on
  success the \<open>go\<close> statement. \<open>BMsg\<close>, \<open>BErr\<close>: the two cases of the \<open>select\<close>
  (a \<open>nil\<close> channel is never ready). \<open>BExit\<close>: the loop condition fails.
  \<open>BOut\<close>: the caller takes the summary from \<open>outc\<close>. \<open>GOpen\<close>, \<open>GRecv\<close>,
  \<open>GSend\<close>, \<open>GCloseErrc\<close>: the started goroutine.
\<close>

datatype blabel = BCancel | BConnect | BMsg | BErr | BExit | BOut | GOpen | GRecv | GSend | GCloseErrc

fun bstep :: "blabel \<Rightarrow> bstate \<Rightarrow> bstate option" where
  "bstep BCancel s = Some (s\<lparr>b_cancelled := True\<rparr>)"
| "bstep BConnect s =
     (if b_m s = B_Connect then
        (case b_dial s of
           Some e \<Rightarrow> Some (s\<lparr>b_m := B_Ret (Some (err_dial (b_addr s) e))\<rparr>)
         | None \<Rightarrow> Some (s\<lparr>b_m := B_Loop, b_g := G_Open\<rparr>))
      else None)"
| "bstep BMsg s =
     (if b_m s = B_Loop \<and> \<not> b_msgc_nil s then
        (case b_msgc s of
           m # ms \<Rightarrow> Some (s\<lparr>b_msgc := ms, b_m := B_Out (GetUpSummary m)\<rparr>)
         | [] \<Rightarrow> if b_msgc_closed s then Some (s\<lparr>b_msgc_nil := True\<rparr>) else None)
      else None)"
| "bstep BOut s =
     (case b_m s of
        B_Out x \<Rightarrow> Some (s\<lparr>b_out := b_out s @ [x], b_m := B_Loop\<rparr>)
      | _ \<Rightarrow> None)"
| "bstep BErr s =
     (if b_m s = B_Loop \<and> \<not> b_errc_nil s then
        (case b_g s of
           G_Errc e \<Rightarrow> Some (b_return (Some e) (s\<lparr>b_g := G_CloseErrc\<rparr>))
         | _ \<Rightarrow> if b_errc_closed s then Some (s\<lparr>b_errc_nil := True\<rparr>) else None)
      else None)"
| "bstep BExit s =
     (if b_m s = B_Loop \<and> b_msgc_nil s \<and> b_errc_nil s then Some (b_return None s) else None)"
| "bstep GOpen s =
     (if b_g s = G_Open then
        (case b_open s of
           Some e \<Rightarrow> Some (s\<lparr>b_g := G_Errc (err_up_build e)\<rparr>)
         | None \<Rightarrow> Some (s\<lparr>b_g := G_Recv\<rparr>))
      else None)"
| "bstep GRecv s =
     (if b_g s = G_Recv then
        (case stream_Recv (b_cancelled s) rpcctx (b_script s) of
           None \<Rightarrow> None
         | Some (EOF, rest) \<Rightarrow>
             Some (s\<lparr>b_script := rest, b_msgc_closed := True, b_g := G_CloseErrc\<rparr>)
         | Some (RecvErr e, rest) \<Rightarrow>
             Some (s\<lparr>b_script := rest, b_msgc_closed := True,
                     b_g := G_Errc (err_up_build_recv e)\<rparr>)
         | Some (Msg m, rest) \<Rightarrow> Some (s\<lparr>b_script := rest, b_g := G_Send m\<rparr>))
      else None)"
| "bstep GSend s =
     (case b_g s of
        G_Send m \<Rightarrow>
          (if length (b_msgc s) < 2 then Some (s\<lparr>b_msgc := b_msgc s @ [m], b_g := G_Recv\<rparr>)
           else None)
      | _ \<Rightarrow> None)"
| "bstep GCloseErrc s =
     (if b_g s = G_CloseErrc then Some (s\<lparr>b_errc_closed := True, b_g := G_Fin\<rparr>) else None)"

text \<open>The actions of the program itself (everything but the caller's cancellation).\<close>

definition b_actions :: "blabel list" where
  "b_actions = [BConnect, BMsg, BErr, BExit, BOut, GOpen, GRecv, GSend, GCloseErrc]"

definition b_returned :: "bstate \<Rightarrow> bool" where
  "b_returned s = (case b_m s of B_Ret r \<Rightarrow> True | _ \<Rightarrow> False)"

subsection \<open>Invariants of UpBuild\<close>

definition b_pend :: "bstate \<Rightarrow> UpSummary option list" where
  "b_pend s = (case b_m s of B_Out x \<Rightarrow> [x] | _ \<Rightarrow> [])"

definition is_end :: "recv_result \<Rightarrow> bool" where
  "is_end t = (case t of Msg m \<Rightarrow> False | _ \<Rightarrow> True)"

definition b_result :: "recv_result \<Rightarrow> error option" where
  "b_result t = (case t of RecvErr e \<Rightarrow> Some (err_up_build_recv e) | _ \<Rightarrow> None)"

fun leading :: "recv_result list \<Rightarrow> UpMessage list" where
  "leading (Msg m # rs) = m # leading rs"
| "leading rs = []"

fun after_leading :: "recv_result list \<Rightarrow> recv_result list" where
  "after_leading (Msg m # rs) = after_leading rs"
| "after_leading rs = rs"

definition in_loop :: "b_gpc \<Rightarrow> bool" where
  "in_loop g = (case g of G_Idle \<Rightarrow> True | G_Open \<Rightarrow> True | G_Recv \<Rightarrow> True | G_Send m \<Rightarrow> True | _ \<Rightarrow> False)"

definition b_gsend :: "bstate \<Rightarrow> UpMessage list" where
  "b_gsend s = (case b_g s of G_Send m \<Rightarrow> [m] | _ \<Rightarrow> [])"

definition b_upcoming :: "bstate \<Rightarrow> UpMessage list" where
  "b_upcoming s = (if in_loop (b_g s) then leading (b_script s) else [])"

definition b_ctl :: "recv_result \<Rightarrow> bstate \<Rightarrow> bool" where
  "b_ctl t s \<longleftrightarrow>
     b_dial s = None \<and> b_open s = None \<and>
     (b_msgc_nil s \<longrightarrow> b_msgc_closed s \<and> b_msgc s = []) \<and>
     (b_errc_nil s \<longrightarrow> b_errc_closed s) \<and>
     (b_errc_closed s \<longleftrightarrow> b_g s = G_Fin) \<and>
     (b_msgc_closed s \<longleftrightarrow> \<not> in_loop (b_g s)) \<and>
     (b_m s = B_Connect \<longleftrightarrow> b_g s = G_Idle) \<and>
     (b_returned s \<longrightarrow> b_m s = B_Ret (b_result t) \<and> b_out_closes s = 1 \<and> b_conn_closes s = 1 \<and>
        (b_g s = G_CloseErrc \<or> b_g s = G_Fin) \<and> (t = EOF \<longrightarrow> b_msgc_nil s)) \<and>
     (\<not> b_returned s \<longrightarrow> b_out_closes s = 0 \<and> b_conn_closes s = 0 \<and>
        (t \<noteq> EOF \<longrightarrow> b_g s \<noteq> G_CloseErrc \<and> b_g s \<noteq> G_Fin)) \<and>
     (in_loop (b_g s) \<longrightarrow> (\<exists>rest. after_leading (b_script s) = t # rest)) \<and>
     (\<forall>e. b_g s = G_Errc e \<longrightarrow> t \<noteq> EOF \<and> Some e = b_result t)"

definition b_data :: "UpMessage list \<Rightarrow> bstate \<Rightarrow> bool" where
  "b_data ms s \<longleftrightarrow>
     length (b_msgc s) \<le> 2 \<and>
     b_out s @ b_pend s @ map GetUpSummary (b_msgc s @ b_gsend s @ b_upcoming s) = map GetUpSummary ms"

text \<open>A bound on the work that is left: every action of the program decreases it.\<close>

definition b_upstream :: "bstate \<Rightarrow> nat" where
  "b_upstream s = length (b_msgc s) + length (b_gsend s) + length (b_script s)"

definition b_measure :: "bstate \<Rightarrow> nat" where
  "b_measure s =
     (case b_m s of
        B_Connect \<Rightarrow> 2 * b_upstream s + 5
      | B_Loop \<Rightarrow> 2 * b_upstream s + (if b_msgc_nil s then 0 else 1) + (if b_errc_nil s then 0 else 1) + 1
      | B_Out x \<Rightarrow> 2 * b_upstream s + (if b_msgc_nil s then 0 else 1) + (if b_errc_nil s then 0 else 1) + 2
      | B_Ret r \<Rightarrow> 0)
     + (case b_g s of
          G_Idle \<Rightarrow> 2 * length (b_script s) + 5
        | G_Open \<Rightarrow> 2 * length (b_script s) + 4
        | G_Recv \<Rightarrow> 2 * length (b_script s) + 3
        | G_Send m \<Rightarrow> 2 * length (b_script s) + 4
        | G_Errc e \<Rightarrow> 2
        | G_CloseErrc \<Rightarrow> 1
        | G_Fin \<Rightarrow> 0)"

definition summary_msg :: "string \<Rightarrow> StatusCode \<Rightarrow> UpMessage" where
  "summary_msg d c = UpMessage_UpSummary \<lparr>StageDesc = d, StatusCode = c\<rparr>"

section \<open>pkg/rpc: UpStream and up_stream\<close>

text \<open>
  \<open>Send(req)\<close> on a stream opened with context \<open>ctx\<close>: the results of the
  successive calls are a script (\<open>None\<close>: sent); past the script a send succeeds.
\<close>

definition stream_Send :: "bool \<Rightarrow> Context \<Rightarrow> error option list \<Rightarrow> error option \<times> error option list" where
  "stream_Send caller_cancelled ctx results =
     (if ctx_done caller_cancelled ctx then (Some ''context canceled'', results)
      else (case results of [] \<Rightarrow> (None, []) | r # rs \<Rightarrow> (r, rs)))"

text \<open>
  Three goroutines: the caller's (\<open>UpStream\<close>, then \<open>up_stream\<close> and its deferred
  function), the forwarder started by \<open>UpStream\<close> (ranges over \<open>msgc\<close>, sends the
  non-nil summaries on \<open>outc\<close>, closes \<open>outc\<close> when \<open>msgc\<close> is closed), and the
  receiver started by \<open>up_stream\<close> (loops on \<open>stream.Recv()\<close>).

  \<open>msgc\<close> (\<open>recv\<close> in \<open>up_stream\<close>) and \<open>errc\<close> are unbuffered: a send is a
  rendezvous with the receive. The receiver waiting at \<open>recv <- m\<close> is program
  point \<open>R_Send m\<close>; waiting at \<open>errc <- err\<close> is \<open>R_Errc err\<close>.

  Program points of the caller's goroutine: at \<open>connect\<close>; at \<open>rpc.UpStream(ctx)\<close>;
  at the \<open>select\<close>; at \<open>stream.Send(req)\<close>; then, with the value to return, the
  deferred function: at \<open>stream.CloseSend()\<close>, at \<open><-done\<close>, at \<open>close(recv)\<close>,
  at \<open>close(errc)\<close> (followed by the return and the deferred \<open>conn.Close()\<close>);
  returned.
\<close>

datatype s_rpc = R_Idle | R_Recv | R_Send UpMessage | R_Errc error | R_Fin

datatype s_fpc = F_Idle | F_Range | F_Out UpSummary | F_Fin

datatype s_mpc = S_Connect | S_Open | S_Loop | S_Send UpRequest
  | S_CloseSend "error option" | S_WaitDone "error option" | S_CloseRecv "error option"
  | S_CloseErrc "error option" | S_Ret "error option"

text \<open>
  The caller's side of \<open>reqc\<close>: the requests it will still offer, and whether it
  closes the channel after them. \<open>s_sent\<close> are the requests written on the
  stream; \<open>s_out\<close> what the consumer of \<open>outc\<close> has received.
\<close>

record sstate =
  s_addr :: string
  s_dial :: "error option"
  s_open :: "error option"
  s_reqs :: "UpRequest list"
  s_reqs_close :: bool
  s_sendres :: "error option list"
  s_script :: "recv_result list"
  s_cancelled :: bool
  s_done_closed :: bool
  s_msgc_closes :: nat
  s_errc_closes :: nat
  s_send_closed :: bool
  s_sent :: "UpRequest list"
  s_r :: s_rpc
  s_f :: s_fpc
  s_m :: s_mpc
  s_out :: "UpSummary list"
  s_out_closes :: nat
  s_conn_closes :: nat

definition s_init :: "string \<Rightarrow> error option \<Rightarrow> error option \<Rightarrow> UpRequest list \<Rightarrow> bool
    \<Rightarrow> error option list \<Rightarrow> recv_result list \<Rightarrow> sstate" where
  "s_init addr dial opn reqs cls sendres script =
     \<lparr>s_addr = addr, s_dial = dial, s_open = opn, s_reqs = reqs, s_reqs_close = cls,
      s_sendres = sendres, s_script = script, s_cancelled = False, s_done_closed = False,
      s_msgc_closes = 0, s_errc_closes = 0, s_send_closed = False, s_sent = [],
      s_r = R_Idle, s_f = F_Idle, s_m = S_Connect, s_out = [], s_out_closes = 0,
      s_conn_closes = 0\<rparr>"

text \<open>
  Labels. \<open>SCancel\<close>: the caller cancels \<open>apictx\<close>. \<open>SConnect\<close>: \<open>connect\<close> and, on
  success, the first \<open>go\<close> statement. \<open>SOpen\<close>: \<open>rpc.UpStream(ctx)\<close> and, on
  success, the second \<open>go\<close> statement. \<open>SReq\<close>, \<open>SReqClosed\<close>: the case \<open><-send\<close>
  of the \<open>select\<close>, with a request or with the channel closed. \<open>SErr\<close>: the case
  \<open><-errc\<close>, a rendezvous with the receiver. \<open>SSend\<close>: \<open>stream.Send\<close>.
  \<open>SCloseSend\<close>, \<open>SWaitDone\<close>, \<open>SCloseRecv\<close>, \<open>SCloseErrc\<close>: the deferred
  function. \<open>RRecv\<close>: the receiver's \<open>stream.Recv()\<close> and what it does with the
  result up to its next channel operation. \<open>FRecv\<close>: the forwarder takes from
  \<open>msgc\<close> what the receiver offers. \<open>FOut\<close>: the consumer takes the summary
  from \<open>outc\<close>. \<open>FClosed\<close>: the forwarder finds \<open>msgc\<close> closed and closes \<open>outc\<close>.
\<close>

datatype slabel = SCancel | SConnect | SOpen | SReq | SReqClosed | SErr | SSend
  | SCloseSend | SWaitDone | SCloseRecv | SCloseErrc | RRecv | FRecv | FOut | FClosed

fun sstep :: "slabel \<Rightarrow> sstate \<Rightarrow> sstate option" where
  "sstep SCancel s = Some (s\<lparr>s_cancelled := True\<rparr>)"
| "sstep SConnect s =
     (if s_m s = S_Connect then
        (case s_dial s of
           Some e \<Rightarrow> Some (s\<lparr>s_m := S_Ret (Some (err_dial (s_addr s) e))\<rparr>)
         | None \<Rightarrow> Some (s\<lparr>s_m := S_Open, s_f := F_Range\<rparr>))
      else None)"
| "sstep SOpen s =
     (if s_m s = S_Open then
        (case s_open s of
           Some e \<Rightarrow> Some (s\<lparr>s_m := S_Ret (Some (err_up_stream e)),
                               s_conn_closes := Suc (s_conn_closes s)\<rparr>)
         | None \<Rightarrow> Some (s\<lparr>s_m := S_Loop, s_r := R_Recv\<rparr>))
      else None)"
| "sstep SReq s =
     (if s_m s = S_Loop then
        (case s_reqs s of
           r # rs \<Rightarrow> Some (s\<lparr>s_reqs := rs, s_m := S_Send r\<rparr>)
         | [] \<Rightarrow> None)
      else None)"
| "sstep SReqClosed s =
     (if s_m s = S_Loop \<and> s_reqs s = [] \<and> s_reqs_close s then Some (s\<lparr>s_m := S_CloseSend None\<rparr>)
      else None)"
| "sstep SErr s =
     (if s_m s = S_Loop then
        (case s_r s of
           R_Errc e \<Rightarrow> Some (s\<lparr>s_m := S_CloseSend (Some e), s_r := R_Fin\<rparr>)
         | _ \<Rightarrow> None)
      else None)"
| "sstep SSend s =
     (case s_m s of
        S_Send r \<Rightarrow>
          (case stream_Send (s_cancelled s) rpcctx (s_sendres s) of
             (None, rest) \<Rightarrow> Some (s\<lparr>s_sendres := rest, s_sent := s_sent s @ [r], s_m := S_Loop\<rparr>)
           | (Some e, rest) \<Rightarrow> Some (s\<lparr>s_sendres := rest, s_m := S_CloseSend (Some (err_send e))\<rparr>))
      | _ \<Rightarrow> None)"
| "sstep SCloseSend s =
     (case s_m s of
        S_CloseSend ret \<Rightarrow> Some (s\<lparr>s_send_closed := True, s_m := S_WaitDone ret\<rparr>)
      | _ \<Rightarrow> None)"
| "sstep SWaitDone s =
     (case s_m s of
        S_WaitDone ret \<Rightarrow> if s_done_closed s then Some (s\<lparr>s_m := S_CloseRecv ret\<rparr>) else None
      | _ \<Rightarrow> None)"
| "sstep SCloseRecv s =
     (case s_m s of
        S_CloseRecv ret \<Rightarrow> Some (s\<lparr>s_msgc_closes := Suc (s_msgc_closes s), s_m := S_CloseErrc ret\<rparr>)
      | _ \<Rightarrow> None)"
| "sstep SCloseErrc s =
     (case s_m s of
        S_CloseErrc ret \<Rightarrow>
          Some (s\<lparr>s_errc_closes := Suc (s_errc_closes s), s_m := S_Ret ret,
                  s_conn_closes := Suc (s_conn_closes s)\<rparr>)
      | _ \<Rightarrow> None)"
| "sstep RRecv s =
     (if s_r s = R_Recv then
        (case stream_Recv (s_cancelled s) rpcctx (s_script s) of
           None \<Rightarrow> None
         | Some (EOF, rest) \<Rightarrow> Some (s\<lparr>s_script := rest, s_done_closed := True, s_r := R_Fin\<rparr>)
         | Some (RecvErr e, rest) \<Rightarrow> Some (s\<lparr>s_script := rest, s_r := R_Errc (err_receive e)\<rparr>)
         | Some (Msg m, rest) \<Rightarrow> Some (s\<lparr>s_script := rest, s_r := R_Send m\<rparr>))
      else None)"
| "sstep FRecv s =
     (if s_f s = F_Range then
        (case s_r s of
           R_Send m \<Rightarrow>
             Some (s\<lparr>s_r := R_Recv,
                     s_f := (case GetUpSummary m of Some x \<Rightarrow> F_Out x | None \<Rightarrow> F_Range)\<rparr>)
         | _ \<Rightarrow> None)
      else None)"
| "sstep FOut s =
     (case s_f s of
        F_Out x \<Rightarrow> Some (s\<lparr>s_out := s_out s @ [x], s_f := F_Range\<rparr>)
      | _ \<Rightarrow> None)"
| "sstep FClosed s =
     (if s_f s = F_Range \<and> 0 < s_msgc_closes s
      then Some (s\<lparr>s_out_closes := Suc (s_out_closes s), s_f := F_Fin\<rparr>) else None)"

definition s_actions :: "slabel list" where
  "s_actions = [SConnect, SOpen, SReq, SReqClosed, SErr, SSend, SCloseSend, SWaitDone,
                SCloseRecv, SCloseErrc, RRecv, FRecv, FOut, FClosed]"

definition s_returned :: "sstate \<Rightarrow> bool" where
  "s_returned s = (case s_m s of S_Ret r \<Rightarrow> True | _ \<Rightarrow> False)"

text \<open>The receiver is still in its loop (it has not sent an error or closed \<open>done\<close>).\<close>

definition s_receiving :: "s_rpc \<Rightarrow> bool" where
  "s_receiving r = (case r of R_Idle \<Rightarrow> True | R_Recv \<Rightarrow> True | R_Send m \<Rightarrow> True | _ \<Rightarrow> False)"

text \<open>
  What holds in every state of an execution in which the stream fails with a
  non-EOF error \<open>e\<close> after some messages: \<open>done\<close> is never closed, so the
  deferred function never gets past \<open><-done\<close>.
\<close>

definition s_stuck_inv :: "error \<Rightarrow> sstate \<Rightarrow> bool" where
  "s_stuck_inv e s \<longleftrightarrow>
     s_dial s = None \<and> s_open s = None \<and> \<not> s_done_closed s \<and> s_msgc_closes s = 0 \<and>
     s_errc_closes s = 0 \<and> s_out_closes s = 0 \<and> s_f s \<noteq> F_Fin \<and>
     (case s_m s of S_CloseRecv ret \<Rightarrow> False | S_CloseErrc ret \<Rightarrow> False | S_Ret ret \<Rightarrow> False | _ \<Rightarrow> True) \<and>
     (s_m s = S_Connect \<or> s_m s = S_Open \<longrightarrow> s_r s = R_Idle) \<and>
     (s_receiving (s_r s) \<longrightarrow> (\<exists>rest. after_leading (s_script s) = RecvErr e # rest))"

section \<open>pkg/cmdline: Display and progress\<close>

text \<open>
  \<open>Display\<close> starts one pair of goroutines per stage: the one of the \<open>go\<close>
  statement, which runs \<open>progress\<close> (the outer loop: spinner frames until a
  message arrives on the local channel \<open>done\<close>), then \<open>delete(ongoing, desc)\<close>
  and \<open>wg.Done()\<close>; and the one \<open>progress\<close> starts (the inner loop: a \<open>select\<close>
  over the stage's channel of status codes and \<open>cli.Done()\<close>).

  A stage record holds the channel made for the stage (\<open>st_codes\<close>, capacity 1),
  the channel \<open>done\<close> of its \<open>progress\<close> call (\<open>st_done\<close>, capacity 1), the two
  program points and the spinner counter \<open>i\<close>. The formatted final line is
  determined by the status code (\<open>passStr\<close> for SUCCESS, \<open>failStr\<close> for FAILURE;
  colours and the elapsed time are not modelled), so \<open>st_done\<close> holds the code.

  Four fields are history variables, read by no step: \<open>st_first\<close> (the status
  code of the message that created the stage), \<open>st_fwd\<close> (the codes \<open>Display\<close>
  sent on the channel), \<open>st_rcvd\<close> (the codes the inner loop received from it)
  and \<open>st_zeros\<close> (how often the inner loop received the zero value from the
  closed, drained channel).
\<close>

datatype i_pc = I_Loop | I_Fin

datatype o_pc = O_Loop | O_Del | O_WgDone | O_Fin

record stage =
  st_desc :: string
  st_codes :: "StatusCode list"
  st_codes_closed :: bool
  st_done :: "StatusCode list"
  st_done_closed :: bool
  st_inner :: i_pc
  st_outer :: o_pc
  st_spin :: nat
  st_first :: StatusCode
  st_fwd :: "StatusCode list"
  st_rcvd :: "StatusCode list"
  st_zeros :: nat

text \<open>
  \<open>c = make(chan rpc.UpSummary_StatusCode, 1)\<close> and the \<open>go\<close> statement: both
  loops at their head. The status code of the message is not sent on \<open>c\<close>.
\<close>

definition new_stage :: "string \<Rightarrow> StatusCode \<Rightarrow> stage" where
  "new_stage d c =
     \<lparr>st_desc = d, st_codes = [], st_codes_closed = False, st_done = [], st_done_closed = False,
      st_inner = I_Loop, st_outer = O_Loop, st_spin = 0,
      st_first = c, st_fwd = [], st_rcvd = [], st_zeros = 0\<rparr>"

text \<open>
  What is written to \<open>cli.opts.stdout\<close>: the banner; a spinner frame of a stage
  (the index into \<open>-\|/-\<close>); the final line of a stage, with its descriptor and
  its mark; and the bare carriage return that \<open>progress\<close> writes when \<open>done\<close>
  was closed without a message. Stages are numbered in the order of creation.
\<close>

datatype sink_write = Banner string | Frame nat nat | Final nat string StatusCode | Blank nat

text \<open>
  Program points of \<open>Display\<close>: at the \<open>select\<close>; at \<open>c <- summary.StatusCode\<close>
  (with the stage and the code); in the deferred function, in the \<open>range\<close>
  over \<open>ongoing\<close> (with the keys already visited); at \<open>wg.Wait()\<close>; returned.
\<close>

datatype d_mpc = D_Loop | D_Send nat StatusCode | D_Defer "string list" | D_Wait | D_Ret

text \<open>
  The state. \<open>d_input\<close> are the summaries still to come on the channel
  \<open>summaries\<close> and \<open>d_input_close\<close> says whether the channel is closed after
  them. \<open>d_ongoing\<close> is the map \<open>ongoing\<close>, from descriptors to stages, as an
  association list. \<open>d_g1\<close> and \<open>d_g2\<close> say whether the two goroutines of
  \<open>cli.Init\<close> have run. \<open>d_seen\<close> is a history variable: the summaries taken
  from the channel so far.
\<close>

record dstate =
  d_app :: string
  d_input :: "UpSummary list"
  d_input_close :: bool
  d_root_cancelled :: bool
  d_cli :: cmdline
  d_g1 :: bool
  d_g2 :: bool
  d_ongoing :: "(string \<times> nat) list"
  d_wg :: nat
  d_stages :: "stage list"
  d_m :: d_mpc
  d_sink :: "sink_write list"
  d_seen :: "UpSummary list"

text \<open>After \<open>cli.Init\<close> and the banner, at the head of the loop.\<close>

definition d_init :: "string \<Rightarrow> UpSummary list \<Rightarrow> bool \<Rightarrow> dstate" where
  "d_init app input cls =
     \<lparr>d_app = app, d_input = input, d_input_close = cls, d_root_cancelled = False,
      d_cli = Init, d_g1 = False, d_g2 = False, d_ongoing = [], d_wg = 0, d_stages = [],
      d_m = D_Loop, d_sink = [Banner app], d_seen = []\<rparr>"

definition set_stage :: "nat \<Rightarrow> stage \<Rightarrow> dstate \<Rightarrow> dstate" where
  "set_stage i st s = s\<lparr>d_stages := (d_stages s)[i := st]\<rparr>"

text \<open>
  The inner loop has received the code \<open>c\<close>: on SUCCESS or FAILURE it puts the
  final line into \<open>done\<close> and returns (the deferred \<open>close(done)\<close>); on any
  other code it goes round the loop.
\<close>

definition inner_received :: "StatusCode \<Rightarrow> stage \<Rightarrow> stage" where
  "inner_received c st =
     (case c of
        SUCCESS \<Rightarrow> st\<lparr>st_done := [SUCCESS], st_done_closed := True, st_inner := I_Fin\<rparr>
      | FAILURE \<Rightarrow> st\<lparr>st_done := [FAILURE], st_done_closed := True, st_inner := I_Fin\<rparr>
      | PENDING \<Rightarrow> st)"

text \<open>
  Labels. \<open>DCancel\<close>: the caller cancels the context given to \<open>Display\<close>.
  \<open>G1\<close>: the first goroutine of \<open>Init\<close> (its \<open>select\<close>, \<open>cancel()\<close>, \<open>wg.Done()\<close>);
  \<open>G2\<close>: the second (\<open>wg.Wait()\<close>, \<open>cli.Stop()\<close>).
  \<open>MRecv\<close>: the \<open>select\<close> of \<open>Display\<close> takes a summary, looks the descriptor
  up and either creates the stage or goes on to send the code. \<open>MClosed\<close>: it
  finds \<open>summaries\<close> closed. \<open>MDone\<close>: it takes the case \<open>cli.Done()\<close>.
  \<open>MSend\<close>: \<open>c <- summary.StatusCode\<close>. \<open>MClose d\<close>: one round of the deferred
  \<open>range\<close>, at key \<open>d\<close>. \<open>MStop\<close>: the \<open>range\<close> is over, \<open>cli.Stop()\<close>.
  \<open>MWait\<close>: \<open>wg.Wait()\<close> returns, and \<open>Display\<close> with it.
  \<open>IRecv i\<close>, \<open>IDone i\<close>: the two cases of the inner \<open>select\<close> of stage \<open>i\<close>.
  \<open>OMsg i\<close>, \<open>OSpin i\<close>: the two cases of the outer \<open>select\<close> (\<open>default\<close> only
  when \<open>done\<close> is not ready). \<open>ODel i\<close>: \<open>delete(ongoing, desc)\<close>.
  \<open>OWgDone i\<close>: \<open>wg.Done()\<close>.
  A step that would panic (closing a closed channel, sending on a closed
  channel, a negative counter) is not enabled.
\<close>

datatype dlabel = DCancel | G1 | G2 | MRecv | MClosed | MDone | MSend | MClose string | MStop | MWait
  | IRecv nat | IDone nat | OMsg nat | OSpin nat | ODel nat | OWgDone nat

fun dstep :: "dlabel \<Rightarrow> dstate \<Rightarrow> dstate option" where
  "dstep DCancel s = Some (s\<lparr>d_root_cancelled := True\<rparr>)"
| "dstep G1 s =
     (if \<not> d_g1 s \<and> (d_root_cancelled s \<or> done_closed (d_cli s)) then Some (s\<lparr>d_g1 := True\<rparr>)
      else None)"
| "dstep G2 s =
     (if d_g1 s \<and> \<not> d_g2 s then
        (case Stop (d_cli s) of
           Inl p \<Rightarrow> None
         | Inr (cli', r) \<Rightarrow> Some (s\<lparr>d_cli := cli', d_g2 := True\<rparr>))
      else None)"
| "dstep MRecv s =
     (if d_m s = D_Loop then
        (case d_input s of
           [] \<Rightarrow> None
         | x # xs \<Rightarrow>
             (case map_of (d_ongoing s) (StageDesc x) of
                None \<Rightarrow>
                  Some (s\<lparr>d_input := xs, d_seen := d_seen s @ [x],
                          d_ongoing := (StageDesc x, length (d_stages s)) # d_ongoing s,
                          d_wg := Suc (d_wg s),
                          d_stages := d_stages s @ [new_stage (StageDesc x) (StatusCode x)]\<rparr>)
              | Some i \<Rightarrow>
                  Some (s\<lparr>d_input := xs, d_seen := d_seen s @ [x],
                          d_m := D_Send i (StatusCode x)\<rparr>)))
      else None)"
| "dstep MClosed s =
     (if d_m s = D_Loop \<and> d_input s = [] \<and> d_input_close s then Some (s\<lparr>d_m := D_Defer []\<rparr>)
      else None)"
| "dstep MDone s =
     (if d_m s = D_Loop \<and> done_closed (d_cli s) then Some (s\<lparr>d_m := D_Defer []\<rparr>) else None)"
| "dstep MSend s =
     (case d_m s of
        D_Send i c \<Rightarrow>
          (if i < length (d_stages s) \<and> \<not> st_codes_closed (d_stages s ! i)
              \<and> length (st_codes (d_stages s ! i)) < 1
           then Some (set_stage i
                        ((d_stages s ! i)\<lparr>st_codes := st_codes (d_stages s ! i) @ [c],
                                          st_fwd := st_fwd (d_stages s ! i) @ [c]\<rparr>)
                        (s\<lparr>d_m := D_Loop\<rparr>))
           else None)
      | _ \<Rightarrow> None)"
| "dstep (MClose d) s =
     (case d_m s of
        D_Defer vis \<Rightarrow>
          (case map_of (d_ongoing s) d of
             None \<Rightarrow> None
           | Some i \<Rightarrow>
               (if d \<notin> set vis \<and> i < length (d_stages s) \<and> \<not> st_codes_closed (d_stages s ! i)
                then Some (set_stage i ((d_stages s ! i)\<lparr>st_codes_closed := True\<rparr>)
                             (s\<lparr>d_m := D_Defer (d # vis)\<rparr>))
                else None))
      | _ \<Rightarrow> None)"
| "dstep MStop s =
     (case d_m s of
        D_Defer vis \<Rightarrow>
          (if list_all (\<lambda>(d, i). d \<in> set vis) (d_ongoing s) then
             (case Stop (d_cli s) of
                Inl p \<Rightarrow> None
              | Inr (cli', r) \<Rightarrow> Some (s\<lparr>d_cli := cli', d_m := D_Wait\<rparr>))
           else None)
      | _ \<Rightarrow> None)"
| "dstep MWait s =
     (if d_m s = D_Wait \<and> d_wg s = 0 then Some (s\<lparr>d_m := D_Ret\<rparr>) else None)"
| "dstep (IRecv i) s =
     (if i < length (d_stages s) \<and> st_inner (d_stages s ! i) = I_Loop then
        (case st_codes (d_stages s ! i) of
           c # cs \<Rightarrow>
             Some (set_stage i
                     (inner_received c
                        ((d_stages s ! i)\<lparr>st_codes := cs, st_rcvd := st_rcvd (d_stages s ! i) @ [c]\<rparr>))
                     s)
         | [] \<Rightarrow>
             (if st_codes_closed (d_stages s ! i)
              then Some (set_stage i
                           (inner_received PENDING
                              ((d_stages s ! i)\<lparr>st_zeros := Suc (st_zeros (d_stages s ! i))\<rparr>))
                           s)
              else None))
      else None)"
| "dstep (IDone i) s =
     (if i < length (d_stages s) \<and> st_inner (d_stages s ! i) = I_Loop \<and> done_closed (d_cli s)
      then Some (set_stage i ((d_stages s ! i)\<lparr>st_done_closed := True, st_inner := I_Fin\<rparr>) s)
      else None)"
| "dstep (OMsg i) s =
     (if i < length (d_stages s) \<and> st_outer (d_stages s ! i) = O_Loop then
        (case st_done (d_stages s ! i) of
           c # cs \<Rightarrow>
             Some (set_stage i ((d_stages s ! i)\<lparr>st_done := cs, st_outer := O_Del\<rparr>)
                     (s\<lparr>d_sink := d_sink s @ [Final i (st_desc (d_stages s ! i)) c]\<rparr>))
         | [] \<Rightarrow>
             (if st_done_closed (d_stages s ! i)
              then Some (set_stage i ((d_stages s ! i)\<lparr>st_outer := O_Del\<rparr>)
                           (s\<lparr>d_sink := d_sink s @ [Blank i]\<rparr>))
              else None))
      else None)"
| "dstep (OSpin i) s =
     (if i < length (d_stages s) \<and> st_outer (d_stages s ! i) = O_Loop
         \<and> st_done (d_stages s ! i) = [] \<and> \<not> st_done_closed (d_stages s ! i)
      then Some (set_stage i ((d_stages s ! i)\<lparr>st_spin := Suc (st_spin (d_stages s ! i))\<rparr>)
                   (s\<lparr>d_sink := d_sink s @ [Frame i (st_spin (d_stages s ! i) mod 5)]\<rparr>))
      else None)"
| "dstep (ODel i) s =
     (if i < length (d_stages s) \<and> st_outer (d_stages s ! i) = O_Del
      then Some (set_stage i ((d_stages s ! i)\<lparr>st_outer := O_WgDone\<rparr>)
                   (s\<lparr>d_ongoing := filter (\<lambda>(k, v). k \<noteq> st_desc (d_stages s ! i)) (d_ongoing s)\<rparr>))
      else None)"
| "dstep (OWgDone i) s =
     (if i < length (d_stages s) \<and> st_outer (d_stages s ! i) = O_WgDone \<and> 0 < d_wg s
      then Some (set_stage i ((d_stages s ! i)\<lparr>st_outer := O_Fin\<rparr>) (s\<lparr>d_wg := d_wg s - 1\<rparr>))
      else None)"

text \<open>
  The actions of the program that can be enabled in a state: the ones without
  a parameter, one \<open>MClose\<close> per key of \<open>ongoing\<close>, and those of each stage.
\<close>

definition d_actions :: "dstate \<Rightarrow> dlabel list" where
  "d_actions s =
     [G1, G2, MRecv, MClosed, MDone, MSend, MStop, MWait]
     @ map (\<lambda>(d, i). MClose d) (d_ongoing s)
     @ concat (map (\<lambda>i. [IRecv i, IDone i, OMsg i, OSpin i, ODel i, OWgDone i])
                 [0 ..< length (d_stages s)])"

definition d_enabled :: "dstate \<Rightarrow> dlabel list" where
  "d_enabled s = filter (\<lambda>l. dstep l s \<noteq> None) (d_actions s)"

text \<open>Which goroutine performs an action.\<close>

datatype task = Caller_task | Init_first | Init_second | Display_main | Stage_inner nat | Stage_outer nat

fun actor :: "dlabel \<Rightarrow> task" where
  "actor DCancel = Caller_task"
| "actor G1 = Init_first"
| "actor G2 = Init_second"
| "actor (IRecv i) = Stage_inner i"
| "actor (IDone i) = Stage_inner i"
| "actor (OMsg i) = Stage_outer i"
| "actor (OSpin i) = Stage_outer i"
| "actor (ODel i) = Stage_outer i"
| "actor (OWgDone i) = Stage_outer i"
| "actor l = Display_main"

text \<open>The final lines in the sink, as (stage, descriptor, mark).\<close>

fun finals :: "sink_write list \<Rightarrow> (nat \<times> string \<times> StatusCode) list" where
  "finals [] = []"
| "finals (Final i d c # ws) = (i, d, c) # finals ws"
| "finals (w # ws) = finals ws"

definition summary :: "string \<Rightarrow> StatusCode \<Rightarrow> UpSummary" where
  "summary d c = \<lparr>StageDesc = d, StatusCode = c\<rparr>"

text \<open>What the inner loop of a stage has obtained from \<open><-codes\<close>, in order.\<close>

definition delivered :: "stage \<Rightarrow> StatusCode list" where
  "delivered st = st_rcvd st @ replicate (st_zeros st) PENDING"

text \<open>The status codes of the summaries for descriptor \<open>d\<close>, in order.\<close>

definition codes_for :: "string \<Rightarrow> UpSummary list \<Rightarrow> StatusCode list" where
  "codes_for d xs = map StatusCode (filter (\<lambda>x. StageDesc x = d) xs)"

subsection \<open>Invariants of Display\<close>

definition is_final_of :: "nat \<Rightarrow> sink_write \<Rightarrow> bool" where
  "is_final_of i w = (case w of Final j d c \<Rightarrow> j = i | _ \<Rightarrow> False)"

text \<open>
  A stage and the sink: the channel of the stage is a queue (what was
  received, followed by what is buffered, is what was sent); the zero value
  is only received from the closed, drained channel; a code in \<open>done\<close> and the
  code of a final line are codes the inner loop received, and not PENDING; a
  final line carries the stage's descriptor; there is at most one final line
  of the stage, and none while its outer loop runs.
\<close>

definition stage_inv :: "sink_write list \<Rightarrow> nat \<Rightarrow> stage \<Rightarrow> bool" where
  "stage_inv sink i st \<longleftrightarrow>
     st_rcvd st @ st_codes st = st_fwd st \<and>
     (0 < st_zeros st \<longrightarrow> st_codes_closed st \<and> st_codes st = []) \<and>
     (\<forall>c \<in> set (st_done st). c \<in> set (st_rcvd st) \<and> c \<noteq> PENDING) \<and>
     (\<forall>d c. Final i d c \<in> set sink \<longrightarrow> d = st_desc st \<and> c \<in> set (st_rcvd st) \<and> c \<noteq> PENDING) \<and>
     length (filter (is_final_of i) sink) \<le> 1 \<and>
     (st_outer st = O_Loop \<longrightarrow> filter (is_final_of i) sink = [])"

definition d_inv :: "dstate \<Rightarrow> bool" where
  "d_inv s \<longleftrightarrow>
     (\<forall>i < length (d_stages s). stage_inv (d_sink s) i (d_stages s ! i)) \<and>
     (\<forall>j d c. Final j d c \<in> set (d_sink s) \<longrightarrow> j < length (d_stages s))"

text \<open>Stage \<open>i\<close> is the last stage created for descriptor \<open>d\<close>.\<close>

definition last_of :: "string list \<Rightarrow> string \<Rightarrow> nat \<Rightarrow> bool" where
  "last_of ds d i \<longleftrightarrow> i < length ds \<and> ds ! i = d \<and> (\<forall>j. i < j \<and> j < length ds \<longrightarrow> ds ! j \<noteq> d)"

definition d_wf :: "dstate \<Rightarrow> bool" where
  "d_wf s \<longleftrightarrow>
     (\<forall>(d, i) \<in> set (d_ongoing s). last_of (map st_desc (d_stages s)) d i) \<and>
     (case d_m s of
        D_Send i c \<Rightarrow> i < length (d_stages s) \<and>
                       last_of (map st_desc (d_stages s)) (map st_desc (d_stages s) ! i) i
      | _ \<Rightarrow> True)"

text \<open>
  Per descriptor: the codes received for it are, in order, those of its
  stages in the order of creation, for each stage the code that created it
  followed by the codes sent on its channel, and at the end the code that
  \<open>Display\<close> is about to send.
\<close>

definition sigs :: "stage list \<Rightarrow> (string \<times> StatusCode list) list" where
  "sigs sts = map (\<lambda>st. (st_desc st, st_first st # st_fwd st)) sts"

definition fwd_for :: "string \<Rightarrow> (string \<times> StatusCode list) list \<Rightarrow> StatusCode list" where
  "fwd_for d sg = concat (map snd (filter (\<lambda>p. fst p = d) sg))"

definition d_pend :: "dstate \<Rightarrow> string \<Rightarrow> StatusCode list" where
  "d_pend s d =
     (case d_m s of
        D_Send i c \<Rightarrow> if map st_desc (d_stages s) ! i = d then [c] else []
      | _ \<Rightarrow> [])"

definition d_part :: "UpSummary list \<Rightarrow> dstate \<Rightarrow> bool" where
  "d_part inp s \<longleftrightarrow>
     d_seen s @ d_input s = inp \<and>
     (\<forall>d. fwd_for d (sigs (d_stages s)) @ d_pend s d = codes_for d (d_seen s))"

text \<open>
  The first code other than PENDING among the codes the inner loop received
  (the loop ends with it), and the final lines of one stage.
\<close>

definition first_terminal :: "StatusCode list \<Rightarrow> StatusCode option" where
  "first_terminal cs = find (\<lambda>c. c \<noteq> PENDING) cs"

definition finals_of :: "nat \<Rightarrow> sink_write list \<Rightarrow> (nat \<times> string \<times> StatusCode) list" where
  "finals_of i ws = filter (\<lambda>(j, d, c). j = i) (finals ws)"

text \<open>
  A stage and its final line: while the inner loop runs it has received only
  PENDING and \<open>done\<close> is open; while the outer loop runs, \<open>done\<close> holds the
  terminal code the inner loop received, if any, and no final line is
  written; once the outer loop is over, the inner loop is over too and the
  final lines of the stage are exactly: one line with the terminal code the
  inner loop received, if it received one, and none otherwise.
\<close>

definition stage_fin :: "sink_write list \<Rightarrow> nat \<Rightarrow> stage \<Rightarrow> bool" where
  "stage_fin sink i st \<longleftrightarrow>
     (st_inner st = I_Loop \<longrightarrow> first_terminal (st_rcvd st) = None \<and> \<not> st_done_closed st) \<and>
     (st_outer st = O_Loop \<longrightarrow>
        st_done st = (case first_terminal (st_rcvd st) of Some c \<Rightarrow> [c] | None \<Rightarrow> []) \<and>
        finals_of i sink = []) \<and>
     (st_outer st \<noteq> O_Loop \<longrightarrow>
        st_inner st = I_Fin \<and>
        finals_of i sink
          = (case first_terminal (st_rcvd st) of Some c \<Rightarrow> [(i, st_desc st, c)] | None \<Rightarrow> []))"

definition d_fin :: "dstate \<Rightarrow> bool" where
  "d_fin s \<longleftrightarrow> (\<forall>i < length (d_stages s). stage_fin (d_sink s) i (d_stages s ! i))"

text \<open>
  The wait group counts the stage goroutines that have not called
  \<open>wg.Done()\<close>, and \<open>Display\<close> has returned only when there is none.
\<close>

definition d_live :: "stage list \<Rightarrow> nat" where
  "d_live sts = length (filter (\<lambda>st. st_outer st \<noteq> O_Fin) sts)"

definition d_join :: "dstate \<Rightarrow> bool" where
  "d_join s \<longleftrightarrow> d_wg s = d_live (d_stages s) \<and> (d_m s = D_Ret \<longrightarrow> d_wg s = 0)"

section \<open>Stop is idempotent\<close>

lemma Stop_after_once:
  "once cli \<Longrightarrow> Stops n cli = Inr (cli, replicate n (err cli))"
  by (induction n) (simp_all add: Stop_def)

lemma Stop_first:
  "\<not> done_closed cli \<Longrightarrow> \<not> once cli \<Longrightarrow>
   Stop cli = Inr (cli\<lparr>done_closed := True, done_closes := Suc (done_closes cli), once := True\<rparr>, err cli)"
  by (simp add: Stop_def close_done_def)

text \<open>
  Claim C10. Any number of calls of \<open>Stop\<close> on an initialised cmdline never
  panics; the done channel is closed exactly once (as soon as there is one
  call), and every call returns the same stored error.
\<close>

theorem Stop_idempotent:
  "\<exists>cli'. Stops n Init = Inr (cli', replicate n (err Init))
         \<and> done_closes cli' = (if n = 0 then 0 else 1)
         \<and> done_closed cli' = (n \<noteq> 0)"
proof (cases n)
  case 0
  then show ?thesis by (simp add: Init_def)
next
  case (Suc m)
  let ?c = "Init\<lparr>done_closed := True, done_closes := Suc (done_closes Init), once := True\<rparr>"
  have first: "Stop Init = Inr (?c, err Init)"
    by (rule Stop_first) (simp_all add: Init_def)
  have rest: "Stops m ?c = Inr (?c, replicate m (err ?c))"
    by (rule Stop_after_once) simp
  show ?thesis
    using Suc first rest by (simp add: Init_def)
qed

theorem Stop_idempotent_witness:
  "Stops 3 Init = Inr (\<lparr>done_closed = True, done_closes = 1, once = True, err = None\<rparr>,
                       [None, None, None])"
  using Stop_idempotent [of 3] by (auto simp: Init_def numeral_3_eq_3 Stop_def close_done_def)
section \<open>UpBuild: proofs\<close>

lemma bstep_cases [consumes 1, case_names Cancel DialErr Connect Take MsgNil Out Err ErrNil Exit OpenErr Open RecvEOF RecvErr RecvMsg Send CloseErrc]:
  assumes "bstep l s = Some s'"
  obtains
    "l = BCancel" "s' = s\<lparr>b_cancelled := True\<rparr>"
  | e where "l = BConnect" "b_m s = B_Connect" "b_dial s = Some e"
      "s' = s\<lparr>b_m := B_Ret (Some (err_dial (b_addr s) e))\<rparr>"
  | "l = BConnect" "b_m s = B_Connect" "b_dial s = None" "s' = s\<lparr>b_m := B_Loop, b_g := G_Open\<rparr>"
  | m ms where "l = BMsg" "b_m s = B_Loop" "\<not> b_msgc_nil s" "b_msgc s = m # ms"
      "s' = s\<lparr>b_msgc := ms, b_m := B_Out (GetUpSummary m)\<rparr>"
  | "l = BMsg" "b_m s = B_Loop" "\<not> b_msgc_nil s" "b_msgc s = []" "b_msgc_closed s"
      "s' = s\<lparr>b_msgc_nil := True\<rparr>"
  | x where "l = BOut" "b_m s = B_Out x" "s' = s\<lparr>b_out := b_out s @ [x], b_m := B_Loop\<rparr>"
  | e where "l = BErr" "b_m s = B_Loop" "\<not> b_errc_nil s" "b_g s = G_Errc e"
      "s' = b_return (Some e) (s\<lparr>b_g := G_CloseErrc\<rparr>)"
  | "l = BErr" "b_m s = B_Loop" "\<not> b_errc_nil s" "\<forall>e. b_g s \<noteq> G_Errc e" "b_errc_closed s"
      "s' = s\<lparr>b_errc_nil := True\<rparr>"
  | "l = BExit" "b_m s = B_Loop" "b_msgc_nil s" "b_errc_nil s" "s' = b_return None s"
  | e where "l = GOpen" "b_g s = G_Open" "b_open s = Some e" "s' = s\<lparr>b_g := G_Errc (err_up_build e)\<rparr>"
  | "l = GOpen" "b_g s = G_Open" "b_open s = None" "s' = s\<lparr>b_g := G_Recv\<rparr>"
  | rest where "l = GRecv" "b_g s = G_Recv" "b_script s = EOF # rest"
      "s' = s\<lparr>b_script := rest, b_msgc_closed := True, b_g := G_CloseErrc\<rparr>"
  | e rest where "l = GRecv" "b_g s = G_Recv" "b_script s = RecvErr e # rest"
      "s' = s\<lparr>b_script := rest, b_msgc_closed := True, b_g := G_Errc (err_up_build_recv e)\<rparr>"
  | m rest where "l = GRecv" "b_g s = G_Recv" "b_script s = Msg m # rest"
      "s' = s\<lparr>b_script := rest, b_g := G_Send m\<rparr>"
  | m where "l = GSend" "b_g s = G_Send m" "length (b_msgc s) < 2"
      "s' = s\<lparr>b_msgc := b_msgc s @ [m], b_g := G_Recv\<rparr>"
  | "l = GCloseErrc" "b_g s = G_CloseErrc" "s' = s\<lparr>b_errc_closed := True, b_g := G_Fin\<rparr>"
proof (cases l)
  case BCancel
  with assms have "s' = s\<lparr>b_cancelled := True\<rparr>" by simp
  with BCancel show ?thesis by (rule that(1))
next
  case BConnect
  with assms have m: "b_m s = B_Connect" by (simp split: if_splits)
  show ?thesis
  proof (cases "b_dial s")
    case None
    with assms BConnect m have "s' = s\<lparr>b_m := B_Loop, b_g := G_Open\<rparr>" by simp
    with BConnect m None show ?thesis by (rule that(3))
  next
    case (Some e)
    with assms BConnect m have "s' = s\<lparr>b_m := B_Ret (Some (err_dial (b_addr s) e))\<rparr>" by simp
    with BConnect m Some show ?thesis by (rule that(2))
  qed
next
  case BMsg
  with assms have m: "b_m s = B_Loop" "\<not> b_msgc_nil s" by (simp_all split: if_splits)
  show ?thesis
  proof (cases "b_msgc s")
    case Nil
    with assms BMsg m have "b_msgc_closed s" "s' = s\<lparr>b_msgc_nil := True\<rparr>"
      by (simp_all split: if_splits)
    with BMsg m Nil show ?thesis by (rule that(5))
  next
    case (Cons x xs)
    with assms BMsg m have "s' = s\<lparr>b_msgc := xs, b_m := B_Out (GetUpSummary x)\<rparr>" by simp
    with BMsg m Cons show ?thesis by (rule that(4))
  qed
next
  case BOut
  with assms obtain x where m: "b_m s = B_Out x" by (cases "b_m s") simp_all
  with assms BOut have "s' = s\<lparr>b_out := b_out s @ [x], b_m := B_Loop\<rparr>" by simp
  with BOut m show ?thesis by (rule that(6))
next
  case BErr
  with assms have m: "b_m s = B_Loop" "\<not> b_errc_nil s" by (simp_all split: if_splits)
  show ?thesis
  proof (cases "\<exists>e. b_g s = G_Errc e")
    case True
    then obtain e where g: "b_g s = G_Errc e" by blast
    with assms BErr m have "s' = b_return (Some e) (s\<lparr>b_g := G_CloseErrc\<rparr>)" by simp
    with BErr m g show ?thesis by (rule that(7))
  next
    case False
    then have g: "\<forall>e. b_g s \<noteq> G_Errc e" by blast
    with assms BErr m have "b_errc_closed s" "s' = s\<lparr>b_errc_nil := True\<rparr>"
      by (cases "b_g s"; simp split: if_splits)+
    with BErr m g show ?thesis by (rule that(8))
  qed
next
  case BExit
  with assms have "b_m s = B_Loop" "b_msgc_nil s" "b_errc_nil s" "s' = b_return None s"
    by (simp_all split: if_splits)
  with BExit show ?thesis by (rule that(9))
next
  case GOpen
  with assms have g: "b_g s = G_Open" by (simp split: if_splits)
  show ?thesis
  proof (cases "b_open s")
    case None
    with assms GOpen g have "s' = s\<lparr>b_g := G_Recv\<rparr>" by simp
    with GOpen g None show ?thesis by (rule that(11))
  next
    case (Some e)
    with assms GOpen g have "s' = s\<lparr>b_g := G_Errc (err_up_build e)\<rparr>" by simp
    with GOpen g Some show ?thesis by (rule that(10))
  qed
next
  case GRecv
  with assms have g: "b_g s = G_Recv" by (simp split: if_splits)
  show ?thesis
  proof (cases "b_script s")
    case Nil
    with assms GRecv g show ?thesis
      by (simp add: stream_Recv_def rpcctx_def ctx_done_def)
  next
    case (Cons r rest)
    show ?thesis
    proof (cases r)
      case (Msg m)
      with assms GRecv g Cons have "s' = s\<lparr>b_script := rest, b_g := G_Send m\<rparr>"
        by (simp add: stream_Recv_def rpcctx_def ctx_done_def)
      with GRecv g Cons [unfolded Msg] show ?thesis by (rule that(14))
    next
      case EOF
      with assms GRecv g Cons
      have "s' = s\<lparr>b_script := rest, b_msgc_closed := True, b_g := G_CloseErrc\<rparr>"
        by (simp add: stream_Recv_def rpcctx_def ctx_done_def)
      with GRecv g Cons [unfolded EOF] show ?thesis by (rule that(12))
    next
      case (RecvErr e)
      with assms GRecv g Cons
      have "s' = s\<lparr>b_script := rest, b_msgc_closed := True, b_g := G_Errc (err_up_build_recv e)\<rparr>"
        by (simp add: stream_Recv_def rpcctx_def ctx_done_def)
      with GRecv g Cons [unfolded RecvErr] show ?thesis by (rule that(13))
    qed
  qed
next
  case GSend
  with assms obtain m where g: "b_g s = G_Send m" by (cases "b_g s") simp_all
  with assms GSend have "length (b_msgc s) < 2" "s' = s\<lparr>b_msgc := b_msgc s @ [m], b_g := G_Recv\<rparr>"
    by (simp_all split: if_splits)
  with GSend g show ?thesis by (rule that(15))
next
  case GCloseErrc
  with assms have "b_g s = G_CloseErrc" "s' = s\<lparr>b_errc_closed := True, b_g := G_Fin\<rparr>"
    by (simp_all split: if_splits)
  with GCloseErrc show ?thesis by (rule that(16))
qed


lemma leading_script: "is_end t \<Longrightarrow> leading (map Msg ms @ t # rest) = ms"
  by (induction ms) (auto simp: is_end_def split: recv_result.splits)

lemma after_leading_script: "is_end t \<Longrightarrow> after_leading (map Msg ms @ t # rest) = t # rest"
  by (induction ms) (auto simp: is_end_def split: recv_result.splits)

lemma b_ctl_init: "is_end t \<Longrightarrow> b_ctl t (b_init addr None None (map Msg ms @ t # rest))"
  by (simp add: b_ctl_def b_init_def b_returned_def in_loop_def after_leading_script)

lemma b_data_init: "is_end t \<Longrightarrow> b_data ms (b_init addr None None (map Msg ms @ t # rest))"
  by (simp add: b_data_def b_init_def b_pend_def b_gsend_def b_upcoming_def in_loop_def leading_script)

lemma b_ctl_step:
  assumes "bstep l s = Some s'" "is_end t" "b_ctl t s" 
  shows "b_ctl t s'"
  using assms
proof (cases rule: bstep_cases)
  case Cancel
  then show ?thesis using assms(3) by (auto simp add: b_ctl_def b_returned_def)
next
  case (DialErr e)
  then show ?thesis using assms(3) by (auto simp add: b_ctl_def b_returned_def)
next
  case Connect
  then show ?thesis using assms(3) by (auto simp add: b_ctl_def b_returned_def in_loop_def)
next
  case (Take m ms)
  then show ?thesis using assms(3) by (auto simp add: b_ctl_def b_returned_def in_loop_def)
next
  case MsgNil
  then show ?thesis using assms(3) by (auto simp add: b_ctl_def b_returned_def in_loop_def)
next
  case (Out x)
  then show ?thesis using assms(3) by (auto simp add: b_ctl_def b_returned_def in_loop_def)
next
  case (Err e)
  then show ?thesis using assms(3) by (auto simp add: b_ctl_def b_returned_def b_return_def in_loop_def)
next
  case ErrNil
  then show ?thesis using assms(3) by (auto simp add: b_ctl_def b_returned_def in_loop_def)
next
  case Exit
  then show ?thesis using assms(2,3)
    by (cases t) (auto simp add: b_ctl_def b_returned_def b_return_def in_loop_def b_result_def is_end_def)
next
  case (OpenErr e)
  then show ?thesis using assms(3) by (auto simp add: b_ctl_def b_returned_def in_loop_def)
next
  case Open
  then show ?thesis using assms(3) by (auto simp add: b_ctl_def b_returned_def in_loop_def)
next
  case (RecvEOF rest)
  then show ?thesis using assms(3) by (auto simp add: b_ctl_def b_returned_def in_loop_def)
next
  case (RecvErr e rest)
  then show ?thesis using assms(3) by (auto simp add: b_ctl_def b_returned_def in_loop_def b_result_def)
next
  case (RecvMsg m rest)
  then show ?thesis using assms(3) by (auto simp add: b_ctl_def b_returned_def in_loop_def)
next
  case (Send m)
  then show ?thesis using assms(3) by (auto simp add: b_ctl_def b_returned_def in_loop_def)
next
  case CloseErrc
  then show ?thesis using assms(3) by (auto simp add: b_ctl_def b_returned_def in_loop_def)
qed


lemma b_data_step:
  assumes "bstep l s = Some s'" "b_ctl t s" "b_data ms s"
  shows "b_data ms s'"
  using assms(1)
proof (cases rule: bstep_cases)
  case Cancel
  then show ?thesis using assms(3) by (auto simp add: b_data_def b_pend_def b_gsend_def b_upcoming_def)
next
  case (DialErr e)
  then show ?thesis using assms(2) by (simp add: b_ctl_def)
next
  case Connect
  then show ?thesis using assms(2,3)
    by (auto simp add: b_ctl_def b_data_def b_pend_def b_gsend_def b_upcoming_def in_loop_def)
next
  case (Take m ms')
  then show ?thesis using assms(3) by (auto simp add: b_data_def b_pend_def b_gsend_def b_upcoming_def)
next
  case MsgNil
  then show ?thesis using assms(3) by (auto simp add: b_data_def b_pend_def b_gsend_def b_upcoming_def)
next
  case (Out x)
  then show ?thesis using assms(3) by (auto simp add: b_data_def b_pend_def b_gsend_def b_upcoming_def)
next
  case (Err e)
  then show ?thesis using assms(3)
    by (auto simp add: b_data_def b_pend_def b_gsend_def b_upcoming_def b_return_def in_loop_def)
next
  case ErrNil
  then show ?thesis using assms(3) by (auto simp add: b_data_def b_pend_def b_gsend_def b_upcoming_def)
next
  case Exit
  then show ?thesis using assms(3)
    by (auto simp add: b_data_def b_pend_def b_gsend_def b_upcoming_def b_return_def)
next
  case (OpenErr e)
  then show ?thesis using assms(2) by (simp add: b_ctl_def)
next
  case Open
  then show ?thesis using assms(3)
    by (auto simp add: b_data_def b_pend_def b_gsend_def b_upcoming_def in_loop_def)
next
  case (RecvEOF rest)
  then show ?thesis using assms(3)
    by (auto simp add: b_data_def b_pend_def b_gsend_def b_upcoming_def in_loop_def)
next
  case (RecvErr e rest)
  then show ?thesis using assms(3)
    by (auto simp add: b_data_def b_pend_def b_gsend_def b_upcoming_def in_loop_def)
next
  case (RecvMsg m rest)
  then show ?thesis using assms(3)
    by (auto simp add: b_data_def b_pend_def b_gsend_def b_upcoming_def in_loop_def)
next
  case (Send m)
  then show ?thesis using assms(3)
    by (auto simp add: b_data_def b_pend_def b_gsend_def b_upcoming_def in_loop_def)
next
  case CloseErrc
  then show ?thesis using assms(3)
    by (auto simp add: b_data_def b_pend_def b_gsend_def b_upcoming_def in_loop_def)
qed

lemma b_inv_run:
  assumes "is_end t"
  shows "run bstep sched s = Some s' \<Longrightarrow> b_ctl t s \<Longrightarrow> b_data ms s \<Longrightarrow> b_ctl t s' \<and> b_data ms s'"
proof (induction sched arbitrary: s)
  case Nil
  then show ?case by simp
next
  case (Cons l ls)
  from Cons.prems(1) obtain s1 where 1: "bstep l s = Some s1" and 2: "run bstep ls s1 = Some s'"
    by (auto split: option.splits)
  from 1 assms Cons.prems(2) have "b_ctl t s1" by (rule b_ctl_step)
  moreover from 1 Cons.prems(2,3) have "b_data ms s1" by (rule b_data_step)
  ultimately show ?case using Cons.IH 2 by blast
qed

text \<open>No deadlock: while UpBuild has not returned, some action of the program is enabled.\<close>

lemma b_progress:
  assumes "b_ctl t s" "b_data ms s" "\<not> b_returned s"
  shows "enabled bstep b_actions s \<noteq> []"
proof -
  have "\<exists>l \<in> set b_actions. bstep l s \<noteq> None"
  proof (cases "b_m s")
    case B_Connect
    then have "bstep BConnect s \<noteq> None" by (simp split: option.splits)
    then show ?thesis by (auto simp: b_actions_def)
  next
    case (B_Out x)
    then have "bstep BOut s \<noteq> None" by simp
    then show ?thesis by (auto simp: b_actions_def)
  next
    case (B_Ret r)
    with assms(3) show ?thesis by (simp add: b_returned_def)
  next
    case B_Loop
    show ?thesis
    proof (cases "b_g s")
      case G_Idle
      with B_Loop assms(1) show ?thesis by (simp add: b_ctl_def)
    next
      case G_Open
      then have "bstep GOpen s \<noteq> None" by (simp split: option.splits)
      then show ?thesis by (auto simp: b_actions_def)
    next
      case G_Recv
      with assms(1) obtain r rs where "b_script s = r # rs"
        by (cases "b_script s") (auto simp: b_ctl_def in_loop_def)
      with G_Recv have "bstep GRecv s \<noteq> None"
        by (simp add: stream_Recv_def rpcctx_def ctx_done_def split: recv_result.splits)
      then show ?thesis by (auto simp: b_actions_def)
    next
      case (G_Send m)
      show ?thesis
      proof (cases "length (b_msgc s) < 2")
        case True
        with G_Send have "bstep GSend s \<noteq> None" by simp
        then show ?thesis by (auto simp: b_actions_def)
      next
        case False
        then obtain x xs where "b_msgc s = x # xs" by (cases "b_msgc s") auto
        moreover from this assms(1) have "\<not> b_msgc_nil s" by (auto simp: b_ctl_def)
        ultimately have "bstep BMsg s \<noteq> None" using B_Loop by simp
        then show ?thesis by (auto simp: b_actions_def)
      qed
    next
      case (G_Errc e)
      with assms(1) have "\<not> b_errc_nil s" by (auto simp: b_ctl_def)
      with G_Errc B_Loop have "bstep BErr s \<noteq> None" by simp
      then show ?thesis by (auto simp: b_actions_def)
    next
      case G_CloseErrc
      then have "bstep GCloseErrc s \<noteq> None" by simp
      then show ?thesis by (auto simp: b_actions_def)
    next
      case G_Fin
      with assms(1) have c: "b_msgc_closed s" "b_errc_closed s" by (auto simp: b_ctl_def in_loop_def)
      show ?thesis
      proof (cases "b_msgc_nil s")
        case False
        with B_Loop c have "bstep BMsg s \<noteq> None" by (simp split: list.splits)
        then show ?thesis by (auto simp: b_actions_def)
      next
        case True
        show ?thesis
        proof (cases "b_errc_nil s")
          case False
          with B_Loop c G_Fin have "bstep BErr s \<noteq> None" by simp
          then show ?thesis by (auto simp: b_actions_def)
        next
          case nil: True
          with True B_Loop have "bstep BExit s \<noteq> None" by simp
          then show ?thesis by (auto simp: b_actions_def)
        qed
      qed
    qed
  qed
  then show ?thesis by (auto simp: enabled_def filter_empty_conv)
qed

lemma b_measure_step:
  assumes "bstep l s = Some s'" "b_ctl t s" "l \<noteq> BCancel"
  shows "b_measure s' < b_measure s"
  using assms(1)
proof (cases rule: bstep_cases)
  case Cancel
  with assms(3) show ?thesis by simp
next
  case (DialErr e)
  then show ?thesis using assms(2) by (simp add: b_ctl_def)
next
  case Connect
  then show ?thesis using assms(2) by (simp add: b_measure_def b_upstream_def b_gsend_def b_ctl_def split: b_mpc.splits b_gpc.splits)
next
  case (Take m ms)
  then show ?thesis by (simp add: b_measure_def b_upstream_def b_gsend_def split: b_mpc.splits b_gpc.splits)
next
  case MsgNil
  then show ?thesis by (simp add: b_measure_def b_upstream_def b_gsend_def split: b_mpc.splits b_gpc.splits)
next
  case (Out x)
  then show ?thesis by (simp add: b_measure_def b_upstream_def b_gsend_def split: b_mpc.splits b_gpc.splits)
next
  case (Err e)
  then show ?thesis by (simp add: b_measure_def b_upstream_def b_gsend_def b_return_def split: b_mpc.splits b_gpc.splits)
next
  case ErrNil
  then show ?thesis by (simp add: b_measure_def b_upstream_def b_gsend_def split: b_mpc.splits b_gpc.splits)
next
  case Exit
  then show ?thesis by (simp add: b_measure_def b_upstream_def b_gsend_def b_return_def split: b_mpc.splits b_gpc.splits)
next
  case (OpenErr e)
  then show ?thesis by (simp add: b_measure_def b_upstream_def b_gsend_def split: b_mpc.splits b_gpc.splits)
next
  case Open
  then show ?thesis by (simp add: b_measure_def b_upstream_def b_gsend_def split: b_mpc.splits b_gpc.splits)
next
  case (RecvEOF rest)
  then show ?thesis by (simp add: b_measure_def b_upstream_def b_gsend_def split: b_mpc.splits b_gpc.splits)
next
  case (RecvErr e rest)
  then show ?thesis by (simp add: b_measure_def b_upstream_def b_gsend_def split: b_mpc.splits b_gpc.splits)
next
  case (RecvMsg m rest)
  then show ?thesis by (simp add: b_measure_def b_upstream_def b_gsend_def split: b_mpc.splits b_gpc.splits)
next
  case (Send m)
  then show ?thesis by (simp add: b_measure_def b_upstream_def b_gsend_def split: b_mpc.splits b_gpc.splits)
next
  case CloseErrc
  then show ?thesis by (simp add: b_measure_def b_upstream_def b_gsend_def split: b_mpc.splits b_gpc.splits)
qed

lemma b_cancel_measure: "b_measure (s\<lparr>b_cancelled := c\<rparr>) = b_measure s"
  by (simp add: b_measure_def b_upstream_def b_gsend_def split: b_mpc.splits b_gpc.splits)

lemma b_bounded:
  assumes "is_end t"
  shows "run bstep sched s = Some s' \<Longrightarrow> b_ctl t s \<Longrightarrow>
         length (filter (\<lambda>l. l \<noteq> BCancel) sched) + b_measure s' \<le> b_measure s"
proof (induction sched arbitrary: s)
  case Nil
  then show ?case by simp
next
  case (Cons l ls)
  from Cons.prems(1) obtain s1 where 1: "bstep l s = Some s1" and 2: "run bstep ls s1 = Some s'"
    by (auto split: option.splits)
  from 1 assms Cons.prems(2) have c1: "b_ctl t s1" by (rule b_ctl_step)
  from Cons.IH [OF 2 c1]
  have ih: "length (filter (\<lambda>l. l \<noteq> BCancel) ls) + b_measure s' \<le> b_measure s1" .
  show ?case
  proof (cases "l = BCancel")
    case True
    with 1 have "b_measure s1 = b_measure s" by (auto simp add: b_cancel_measure)
    with ih True show ?thesis by simp
  next
    case False
    have "b_measure s1 < b_measure s" by (rule b_measure_step [OF 1 Cons.prems(2) False])
    with ih False show ?thesis by simp
  qed
qed

lemma b_measure_init:
  "b_measure (b_init addr dial opn script) = 4 * length script + 10"
  by (simp add: b_measure_def b_init_def b_upstream_def b_gsend_def)

text \<open>Once \<open>UpBuild\<close> has returned nothing is emitted any more.\<close>

lemma b_returned_step:
  assumes "bstep l s = Some s'" "b_m s = B_Ret r"
  shows "b_m s' = B_Ret r \<and> b_out s' = b_out s \<and> b_out_closes s' = b_out_closes s"
  using assms(1)
  by (cases rule: bstep_cases) (use assms(2) in simp_all)

lemma b_returned_run:
  "run bstep sched s = Some s' \<Longrightarrow> b_m s = B_Ret r \<Longrightarrow>
   b_m s' = B_Ret r \<and> b_out s' = b_out s \<and> b_out_closes s' = b_out_closes s"
proof (induction sched arbitrary: s)
  case Nil
  then show ?case by simp
next
  case (Cons l ls)
  from Cons.prems(1) obtain s1 where 1: "bstep l s = Some s1" and 2: "run bstep ls s1 = Some s'"
    by (auto split: option.splits)
  from b_returned_step [OF 1 Cons.prems(2)] Cons.IH [OF 2] show ?case by simp
qed


text \<open>
  Claim C8. \<open>UpBuild\<close> on a stream whose first \<open>Recv\<close> answers \<open>io.EOF\<close> (dial and
  open succeeded): in every state of every execution nothing has been emitted
  on the output channel; once \<open>UpBuild\<close> has returned, it returned \<open>nil\<close> and
  closed the output channel exactly once; until then the channel is not closed
  and some action of the program is enabled (no deadlock); and an execution
  has a bounded number of program actions, so under any scheduler \<open>UpBuild\<close>
  does return.
\<close>

theorem UpBuild_immediate_EOF:
  assumes "run bstep sched (b_init addr None None (EOF # rest)) = Some s"
  shows "b_out s = []
       \<and> (b_returned s \<longrightarrow> b_m s = B_Ret None \<and> b_out_closes s = 1)
       \<and> (\<not> b_returned s \<longrightarrow> b_out_closes s = 0 \<and> enabled bstep b_actions s \<noteq> [])
       \<and> length (filter (\<lambda>l. l \<noteq> BCancel) sched) \<le> 4 * length rest + 14"
proof -
  let ?i = "b_init addr None None (map Msg [] @ EOF # rest)"
  have e: "is_end EOF" by (simp add: is_end_def)
  have r: "run bstep sched ?i = Some s" using assms by simp
  have inv: "b_ctl EOF s \<and> b_data [] s"
    by (rule b_inv_run [OF e r b_ctl_init [OF e] b_data_init [OF e]])
  then have c: "b_ctl EOF s" and d: "b_data [] s" by simp_all
  from d have out: "b_out s = []" by (simp add: b_data_def)
  from c have ret: "b_returned s \<longrightarrow> b_m s = B_Ret None \<and> b_out_closes s = 1"
    by (simp add: b_ctl_def b_result_def)
  from c have nret: "\<not> b_returned s \<longrightarrow> b_out_closes s = 0" by (simp add: b_ctl_def)
  from b_progress [OF c d] have prog: "\<not> b_returned s \<longrightarrow> enabled bstep b_actions s \<noteq> []" by blast
  from b_bounded [OF e r b_ctl_init [OF e]]
  have "length (filter (\<lambda>l. l \<noteq> BCancel) sched) \<le> b_measure ?i" by simp
  then have bound: "length (filter (\<lambda>l. l \<noteq> BCancel) sched) \<le> 4 * length rest + 14"
    by (simp add: b_measure_init)
  from out ret nret prog bound show ?thesis by blast
qed

theorem UpBuild_immediate_EOF_witness:
  "run bstep [BConnect, GOpen, GRecv, GCloseErrc, BMsg, BErr, BExit]
      (b_init ''localhost:44135'' None None [EOF])
   = Some \<lparr>b_addr = ''localhost:44135'', b_dial = None, b_open = None, b_script = [],
            b_cancelled = False, b_msgc = [], b_msgc_closed = True, b_errc_closed = True,
            b_msgc_nil = True, b_errc_nil = True, b_g = G_Fin, b_m = B_Ret None,
            b_out = [], b_out_closes = 1, b_conn_closes = 1\<rparr>
   \<and> b_returned \<lparr>b_addr = ''localhost:44135'', b_dial = None, b_open = None, b_script = [],
            b_cancelled = False, b_msgc = [], b_msgc_closed = True, b_errc_closed = True,
            b_msgc_nil = True, b_errc_nil = True, b_g = G_Fin, b_m = B_Ret None,
            b_out = [], b_out_closes = 1, b_conn_closes = 1\<rparr>"
proof -
  let ?s = "\<lparr>b_addr = ''localhost:44135'', b_dial = None, b_open = None, b_script = [],
            b_cancelled = False, b_msgc = [], b_msgc_closed = True, b_errc_closed = True,
            b_msgc_nil = True, b_errc_nil = True, b_g = G_Fin, b_m = B_Ret None,
            b_out = [], b_out_closes = 1, b_conn_closes = 1\<rparr>"
  have r: "run bstep [BConnect, GOpen, GRecv, GCloseErrc, BMsg, BErr, BExit]
      (b_init ''localhost:44135'' None None [EOF]) = Some ?s"
    by (simp add: b_init_def stream_Recv_def rpcctx_def ctx_done_def b_return_def)
  from UpBuild_immediate_EOF [OF r] r show ?thesis by (simp add: b_returned_def)
qed

text \<open>
  Claim C4, as amended. When the receive loop of \<open>up_build\<close> fails after the
  messages \<open>ms\<close>: what has been emitted on the output channel is always a prefix,
  in order, of the summaries of \<open>ms\<close>; once \<open>UpBuild\<close> has returned, it returned
  the wrapped error, the output channel was closed exactly once, and whatever
  runs afterwards changes neither the returned error nor the output nor the
  number of closes; until it returns the channel is open and some action of
  the program is enabled; and the number of program actions is bounded.
  Nothing else is lost: at every moment the summaries of \<open>ms\<close> are, in order,
  what was emitted, then the summary \<open>UpBuild\<close> is about to emit, then the
  messages buffered in \<open>msgc\<close> (at most 2), then the message the receiver is
  about to put into \<open>msgc\<close>, then those the stream has still to deliver; so
  when \<open>UpBuild\<close> returns, the summaries of \<open>ms\<close> are exactly what was emitted
  followed by the at most two messages still buffered in \<open>msgc\<close>, which are
  dropped.
\<close>

theorem UpBuild_receive_error:
  assumes "run bstep sched (b_init addr None None (map Msg ms @ RecvErr e # rest)) = Some s"
      and "run bstep sched' s = Some s'"
  shows "prefix (b_out s) (map GetUpSummary ms)
       \<and> b_out s @ b_pend s @ map GetUpSummary (b_msgc s @ b_gsend s @ b_upcoming s)
           = map GetUpSummary ms
       \<and> length (b_msgc s) \<le> 2
       \<and> (b_returned s \<longrightarrow> b_m s = B_Ret (Some (err_up_build_recv e)) \<and> b_out_closes s = 1
             \<and> b_out s @ map GetUpSummary (b_msgc s) = map GetUpSummary ms
             \<and> b_m s' = b_m s \<and> b_out s' = b_out s \<and> b_out_closes s' = 1)
       \<and> (\<not> b_returned s \<longrightarrow> b_out_closes s = 0 \<and> enabled bstep b_actions s \<noteq> [])
       \<and> length (filter (\<lambda>l. l \<noteq> BCancel) sched) \<le> 4 * (length ms + length rest) + 14"
proof -
  let ?t = "RecvErr e"
  let ?i = "b_init addr None None (map Msg ms @ ?t # rest)"
  have e: "is_end ?t" by (simp add: is_end_def)
  have inv: "b_ctl ?t s \<and> b_data ms s"
    by (rule b_inv_run [OF e assms(1) b_ctl_init [OF e] b_data_init [OF e]])
  then have c: "b_ctl ?t s" and d: "b_data ms s" by simp_all
  from d have out: "prefix (b_out s) (map GetUpSummary ms)"
    unfolding b_data_def by (metis prefixI)
  from c have ret: "b_returned s \<longrightarrow> b_m s = B_Ret (Some (err_up_build_recv e)) \<and> b_out_closes s = 1"
    by (simp add: b_ctl_def b_result_def)
  have after: "b_returned s \<longrightarrow> b_m s' = b_m s \<and> b_out s' = b_out s \<and> b_out_closes s' = b_out_closes s"
  proof
    assume "b_returned s"
    then obtain r where "b_m s = B_Ret r" by (cases "b_m s") (simp_all add: b_returned_def)
    from b_returned_run [OF assms(2) this] this
    show "b_m s' = b_m s \<and> b_out s' = b_out s \<and> b_out_closes s' = b_out_closes s" by simp
  qed
  from c have nret: "\<not> b_returned s \<longrightarrow> b_out_closes s = 0" by (simp add: b_ctl_def)
  from b_progress [OF c d] have prog: "\<not> b_returned s \<longrightarrow> enabled bstep b_actions s \<noteq> []" by blast
  from b_bounded [OF e assms(1) b_ctl_init [OF e]]
  have "length (filter (\<lambda>l. l \<noteq> BCancel) sched) \<le> b_measure ?i" by simp
  then have bound: "length (filter (\<lambda>l. l \<noteq> BCancel) sched) \<le> 4 * (length ms + length rest) + 14"
    by (simp add: b_measure_init)
  from d have acc: "b_out s @ b_pend s @ map GetUpSummary (b_msgc s @ b_gsend s @ b_upcoming s)
           = map GetUpSummary ms" and cap: "length (b_msgc s) \<le> 2"
    by (simp_all add: b_data_def)
  have lost: "b_returned s \<longrightarrow> b_out s @ map GetUpSummary (b_msgc s) = map GetUpSummary ms"
  proof
    assume r: "b_returned s"
    then have p: "b_pend s = []" by (cases "b_m s") (simp_all add: b_returned_def b_pend_def)
    from r c have "b_g s = G_CloseErrc \<or> b_g s = G_Fin" by (simp add: b_ctl_def)
    then have "b_gsend s = []" "b_upcoming s = []"
      by (auto simp: b_gsend_def b_upcoming_def in_loop_def)
    with acc p show "b_out s @ map GetUpSummary (b_msgc s) = map GetUpSummary ms" by simp
  qed
  from out acc cap ret lost after nret prog bound show ?thesis by auto
qed

text \<open>
  Claim C4 as stated fails. The stream delivers two messages and then an
  error. The receiving goroutine runs ahead: both messages sit in the buffer
  of \<open>msgc\<close> (capacity 2) when it offers the error on \<open>errc\<close>; both cases of the
  \<open>select\<close> are ready and it takes \<open>errc\<close>. \<open>UpBuild\<close> returns the wrapped error
  and closes the output channel, and the caller has observed neither message.
\<close>

theorem UpBuild_receive_error_drops_buffered:
  "run bstep [BConnect, GOpen, GRecv, GSend, GRecv, GSend, GRecv, BErr]
     (b_init ''localhost:44135'' None None
        [Msg (summary_msg ''build'' PENDING), Msg (summary_msg ''build'' SUCCESS), RecvErr ''boom''])
   = Some \<lparr>b_addr = ''localhost:44135'', b_dial = None, b_open = None, b_script = [],
            b_cancelled = False,
            b_msgc = [summary_msg ''build'' PENDING, summary_msg ''build'' SUCCESS],
            b_msgc_closed = True, b_errc_closed = False,
            b_msgc_nil = False, b_errc_nil = False, b_g = G_CloseErrc,
            b_m = B_Ret (Some ''rpc error handling up_build recv: boom''),
            b_out = [], b_out_closes = 1, b_conn_closes = 1\<rparr>"
  by (simp add: b_init_def stream_Recv_def rpcctx_def ctx_done_def b_return_def err_up_build_recv_def)

theorem UpBuild_receive_error_witness:
  "prefix [Some \<lparr>StageDesc = ''build'', StatusCode = PENDING\<rparr>]
      (map GetUpSummary [summary_msg ''build'' PENDING, summary_msg ''build'' SUCCESS])
   \<and> run bstep [BConnect, GOpen, GRecv, GSend, GRecv, BMsg, BOut, GSend, GRecv, BErr, GCloseErrc]
     (b_init ''localhost:44135'' None None
        [Msg (summary_msg ''build'' PENDING), Msg (summary_msg ''build'' SUCCESS), RecvErr ''boom''])
   = Some \<lparr>b_addr = ''localhost:44135'', b_dial = None, b_open = None, b_script = [],
            b_cancelled = False,
            b_msgc = [summary_msg ''build'' SUCCESS],
            b_msgc_closed = True, b_errc_closed = True,
            b_msgc_nil = False, b_errc_nil = False, b_g = G_Fin,
            b_m = B_Ret (Some ''rpc error handling up_build recv: boom''),
            b_out = [Some \<lparr>StageDesc = ''build'', StatusCode = PENDING\<rparr>],
            b_out_closes = 1, b_conn_closes = 1\<rparr>"
proof -
  let ?i = "b_init ''localhost:44135'' None None
        (map Msg [summary_msg ''build'' PENDING, summary_msg ''build'' SUCCESS] @ RecvErr ''boom'' # [])"
  let ?m = "\<lparr>b_addr = ''localhost:44135'', b_dial = None, b_open = None, b_script = [],
            b_cancelled = False,
            b_msgc = [summary_msg ''build'' SUCCESS],
            b_msgc_closed = True, b_errc_closed = False,
            b_msgc_nil = False, b_errc_nil = False, b_g = G_CloseErrc,
            b_m = B_Ret (Some ''rpc error handling up_build recv: boom''),
            b_out = [Some \<lparr>StageDesc = ''build'', StatusCode = PENDING\<rparr>],
            b_out_closes = 1, b_conn_closes = 1\<rparr>"
  have r1: "run bstep [BConnect, GOpen, GRecv, GSend, GRecv, BMsg, BOut, GSend, GRecv, BErr] ?i = Some ?m"
    by (simp add: b_init_def stream_Recv_def rpcctx_def ctx_done_def b_return_def
        err_up_build_recv_def summary_msg_def)
  have r2: "run bstep [GCloseErrc] ?m = Some (?m\<lparr>b_errc_closed := True, b_g := G_Fin\<rparr>)"
    by simp
  from UpBuild_receive_error [OF r1 r2] r1 r2 show ?thesis
    by (simp add: b_init_def stream_Recv_def rpcctx_def ctx_done_def b_return_def
        err_up_build_recv_def summary_msg_def)
qed

section \<open>UpStream: proofs\<close>

lemma s_stuck_init:
  "s_stuck_inv e (s_init addr None None reqs cls sendres (map Msg ms @ RecvErr e # rest))"
  by (simp add: s_stuck_inv_def s_init_def s_receiving_def after_leading_script is_end_def)

lemma s_stuck_step:
  assumes "sstep l s = Some s'" "s_stuck_inv e s"
  shows "s_stuck_inv e s'"
proof (cases l)
  case SCancel
  then show ?thesis using assms by (auto simp: s_stuck_inv_def)
next
  case SConnect
  then show ?thesis using assms by (auto simp: s_stuck_inv_def split: if_splits)
next
  case SOpen
  then show ?thesis using assms by (auto simp: s_stuck_inv_def s_receiving_def split: if_splits)
next
  case SReq
  then show ?thesis using assms by (auto simp: s_stuck_inv_def split: if_splits list.splits)
next
  case SReqClosed
  then show ?thesis using assms by (auto simp: s_stuck_inv_def split: if_splits)
next
  case SErr
  then show ?thesis using assms
    by (cases "s_r s") (auto simp: s_stuck_inv_def s_receiving_def split: if_splits)
next
  case SSend
  then show ?thesis using assms
    by (cases "s_m s") (auto simp: s_stuck_inv_def split: prod.splits option.splits)
next
  case SCloseSend
  then show ?thesis using assms by (cases "s_m s") (auto simp: s_stuck_inv_def)
next
  case SWaitDone
  then show ?thesis using assms by (cases "s_m s") (auto simp: s_stuck_inv_def)
next
  case SCloseRecv
  then show ?thesis using assms by (cases "s_m s") (auto simp: s_stuck_inv_def)
next
  case SCloseErrc
  then show ?thesis using assms by (cases "s_m s") (auto simp: s_stuck_inv_def)
next
  case RRecv
  with assms have r: "s_r s = R_Recv" by (simp split: if_splits)
  with assms(2) obtain rest where a: "after_leading (s_script s) = RecvErr e # rest"
    by (auto simp: s_stuck_inv_def s_receiving_def)
  show ?thesis
  proof (cases "s_script s")
    case Nil
    with a show ?thesis by simp
  next
    case (Cons x xs)
    show ?thesis
    proof (cases x)
      case (Msg m)
      with Cons a r RRecv assms show ?thesis
        by (auto simp: s_stuck_inv_def s_receiving_def stream_Recv_def rpcctx_def ctx_done_def)
    next
      case EOF
      with Cons a show ?thesis by simp
    next
      case (RecvErr e')
      with Cons a r RRecv assms show ?thesis
        by (auto simp: s_stuck_inv_def s_receiving_def stream_Recv_def rpcctx_def ctx_done_def)
    qed
  qed
next
  case FRecv
  then show ?thesis using assms
    by (cases "s_r s") (auto simp: s_stuck_inv_def s_receiving_def split: if_splits option.splits)
next
  case FOut
  then show ?thesis using assms by (cases "s_f s") (auto simp: s_stuck_inv_def)
next
  case FClosed
  then show ?thesis using assms by (auto simp: s_stuck_inv_def split: if_splits)
qed


lemma s_stuck_run:
  "run sstep sched s = Some s' \<Longrightarrow> s_stuck_inv e s \<Longrightarrow> s_stuck_inv e s'"
proof (induction sched arbitrary: s)
  case Nil
  then show ?case by simp
next
  case (Cons l ls)
  from Cons.prems(1) obtain s1 where 1: "sstep l s = Some s1" and 2: "run sstep ls s1 = Some s'"
    by (auto split: option.splits)
  from s_stuck_step [OF 1 Cons.prems(2)] Cons.IH [OF 2] show ?case by blast
qed

text \<open>
  Claim C3 fails on the code (receive error path). Whenever the stream answers
  a non-EOF error to some \<open>Recv\<close> (dial and open succeeded), \<open>UpStream\<close> never
  returns, whatever the schedule, the requests and the results of \<open>Send\<close>:
  the receiving goroutine leaves without closing \<open>done\<close>, the deferred function
  of \<open>up_stream\<close> waits on \<open><-done\<close>, \<open>recv\<close> is never closed and so the output
  channel is never closed either.
\<close>

theorem UpStream_receive_error_never_returns:
  assumes "run sstep sched (s_init addr None None reqs cls sendres (map Msg ms @ RecvErr e # rest)) = Some s"
  shows "\<not> s_returned s \<and> \<not> s_done_closed s \<and> s_msgc_closes s = 0 \<and> s_out_closes s = 0"
proof -
  have "s_stuck_inv e s" by (rule s_stuck_run [OF assms s_stuck_init])
  then show ?thesis by (auto simp: s_stuck_inv_def s_returned_def split: s_mpc.splits)
qed

text \<open>
  The same at a concrete input: the first \<open>Recv\<close> fails. The \<open>select\<close> takes the
  error, the deferred function calls \<open>CloseSend\<close> and blocks on \<open><-done\<close>; no
  action of the program is enabled any more, the forwarder still ranges over
  \<open>msgc\<close>, and the error to return is never returned.
\<close>

theorem UpStream_receive_error_deadlock:
  "run sstep [SConnect, SOpen, RRecv, SErr, SCloseSend]
     (s_init ''localhost:44135'' None None [] False [] [RecvErr ''boom''])
   = Some \<lparr>s_addr = ''localhost:44135'', s_dial = None, s_open = None, s_reqs = [],
            s_reqs_close = False, s_sendres = [], s_script = [], s_cancelled = False,
            s_done_closed = False, s_msgc_closes = 0, s_errc_closes = 0, s_send_closed = True,
            s_sent = [], s_r = R_Fin, s_f = F_Range,
            s_m = S_WaitDone (Some ''failed to receive a summary: boom''),
            s_out = [], s_out_closes = 0, s_conn_closes = 0\<rparr>
   \<and> enabled sstep s_actions
        \<lparr>s_addr = ''localhost:44135'', s_dial = None, s_open = None, s_reqs = [],
            s_reqs_close = False, s_sendres = [], s_script = [], s_cancelled = False,
            s_done_closed = False, s_msgc_closes = 0, s_errc_closes = 0, s_send_closed = True,
            s_sent = [], s_r = R_Fin, s_f = F_Range,
            s_m = S_WaitDone (Some ''failed to receive a summary: boom''),
            s_out = [], s_out_closes = 0, s_conn_closes = 0\<rparr> = []"
proof -
  let ?i = "s_init ''localhost:44135'' None None [] False [] (map Msg [] @ RecvErr ''boom'' # [])"
  let ?s = "\<lparr>s_addr = ''localhost:44135'', s_dial = None, s_open = None, s_reqs = [],
            s_reqs_close = False, s_sendres = [], s_script = [], s_cancelled = False,
            s_done_closed = False, s_msgc_closes = 0, s_errc_closes = 0, s_send_closed = True,
            s_sent = [], s_r = R_Fin, s_f = F_Range,
            s_m = S_WaitDone (Some ''failed to receive a summary: boom''),
            s_out = [], s_out_closes = 0, s_conn_closes = 0\<rparr>"
  have r: "run sstep [SConnect, SOpen, RRecv, SErr, SCloseSend] ?i = Some ?s"
    by (simp add: s_init_def stream_Recv_def rpcctx_def ctx_done_def err_receive_def)
  have e: "enabled sstep s_actions ?s = []"
    by (simp add: enabled_def s_actions_def)
  from UpStream_receive_error_never_returns [OF r] r e show ?thesis by simp
qed

lemma bstep_cancelled:
  "l \<noteq> BCancel \<Longrightarrow>
   bstep l (s\<lparr>b_cancelled := c\<rparr>) = map_option (\<lambda>s'. s'\<lparr>b_cancelled := c\<rparr>) (bstep l s)"
  by (cases l)
     (simp_all add: stream_Recv_def rpcctx_def ctx_done_def b_return_def
        split: option.splits list.splits b_gpc.splits b_mpc.splits recv_result.splits)

lemma sstep_cancelled:
  "l \<noteq> SCancel \<Longrightarrow>
   sstep l (s\<lparr>s_cancelled := c\<rparr>) = map_option (\<lambda>s'. s'\<lparr>s_cancelled := c\<rparr>) (sstep l s)"
  by (cases l)
     (simp_all add: stream_Recv_def stream_Send_def rpcctx_def ctx_done_def
        split: option.splits list.splits s_rpc.splits s_fpc.splits s_mpc.splits recv_result.splits)

lemma brun_cancelled:
  "run bstep sched s = Some s' \<Longrightarrow>
   run bstep (filter (\<lambda>l. l \<noteq> BCancel) sched) (s\<lparr>b_cancelled := c\<rparr>) = Some (s'\<lparr>b_cancelled := c\<rparr>)"
proof (induction sched arbitrary: s)
  case Nil
  then show ?case by simp
next
  case (Cons l ls)
  from Cons.prems obtain s1 where 1: "bstep l s = Some s1" and 2: "run bstep ls s1 = Some s'"
    by (auto split: option.splits)
  note ih = Cons.IH [OF 2]
  show ?case
  proof (cases "l = BCancel")
    case True
    with 1 have "s1\<lparr>b_cancelled := c\<rparr> = s\<lparr>b_cancelled := c\<rparr>" by auto
    with ih True show ?thesis by simp
  next
    case False
    with 1 ih show ?thesis by (simp add: bstep_cancelled)
  qed
qed

lemma srun_cancelled:
  "run sstep sched s = Some s' \<Longrightarrow>
   run sstep (filter (\<lambda>l. l \<noteq> SCancel) sched) (s\<lparr>s_cancelled := c\<rparr>) = Some (s'\<lparr>s_cancelled := c\<rparr>)"
proof (induction sched arbitrary: s)
  case Nil
  then show ?case by simp
next
  case (Cons l ls)
  from Cons.prems obtain s1 where 1: "sstep l s = Some s1" and 2: "run sstep ls s1 = Some s'"
    by (auto split: option.splits)
  note ih = Cons.IH [OF 2]
  show ?case
  proof (cases "l = SCancel")
    case True
    with 1 have "s1\<lparr>s_cancelled := c\<rparr> = s\<lparr>s_cancelled := c\<rparr>" by auto
    with ih True show ?thesis by simp
  next
    case False
    with 1 ih show ?thesis by (simp add: sstep_cancelled)
  qed
qed

text \<open>
  Claim C2, as amended. Cancelling the context argument has no effect on
  \<open>UpBuild\<close> or \<open>UpStream\<close>: both hand \<open>context.Background()\<close> to the RPC. Any
  execution with cancellations is, the cancellations removed, an execution
  that reaches the same state (up to the flag that records the cancellation).
\<close>

theorem cancellation_ignored:
  "(run bstep bsched (b_init addr dial opn script) = Some bs \<longrightarrow>
      run bstep (filter (\<lambda>l. l \<noteq> BCancel) bsched) (b_init addr dial opn script)
        = Some (bs\<lparr>b_cancelled := False\<rparr>))
   \<and> (run sstep ssched (s_init addr dial opn reqs cls sendres script) = Some ss \<longrightarrow>
      run sstep (filter (\<lambda>l. l \<noteq> SCancel) ssched) (s_init addr dial opn reqs cls sendres script)
        = Some (ss\<lparr>s_cancelled := False\<rparr>))"
proof -
  have b: "(b_init addr dial opn script)\<lparr>b_cancelled := False\<rparr> = b_init addr dial opn script"
    by (simp add: b_init_def)
  have s: "(s_init addr dial opn reqs cls sendres script)\<lparr>s_cancelled := False\<rparr>
           = s_init addr dial opn reqs cls sendres script"
    by (simp add: s_init_def)
  show ?thesis
    using brun_cancelled [of bsched "b_init addr dial opn script" bs False]
          srun_cancelled [of ssched "s_init addr dial opn reqs cls sendres script" ss False]
    by (simp add: b s)
qed

text \<open>
  Claim C2 as stated fails. \<open>UpStream\<close> has sent one request; the server is
  silent and the caller offers no further request. The caller cancels the
  context: the receiver stays blocked in \<open>Recv\<close>, the send loop stays in its
  \<open>select\<close>, and no action of the program is enabled.
\<close>

theorem UpStream_cancel_leaves_loops_blocked:
  "run sstep [SConnect, SOpen, SReq, SSend, SCancel]
     (s_init ''localhost:44135'' None None [UpRequest ''app''] False [] [])
   = Some \<lparr>s_addr = ''localhost:44135'', s_dial = None, s_open = None, s_reqs = [],
            s_reqs_close = False, s_sendres = [], s_script = [], s_cancelled = True,
            s_done_closed = False, s_msgc_closes = 0, s_errc_closes = 0, s_send_closed = False,
            s_sent = [UpRequest ''app''], s_r = R_Recv, s_f = F_Range, s_m = S_Loop,
            s_out = [], s_out_closes = 0, s_conn_closes = 0\<rparr>
   \<and> enabled sstep s_actions
        \<lparr>s_addr = ''localhost:44135'', s_dial = None, s_open = None, s_reqs = [],
            s_reqs_close = False, s_sendres = [], s_script = [], s_cancelled = True,
            s_done_closed = False, s_msgc_closes = 0, s_errc_closes = 0, s_send_closed = False,
            s_sent = [UpRequest ''app''], s_r = R_Recv, s_f = F_Range, s_m = S_Loop,
            s_out = [], s_out_closes = 0, s_conn_closes = 0\<rparr> = []"
  by (simp add: s_init_def stream_Recv_def stream_Send_def rpcctx_def ctx_done_def
      enabled_def s_actions_def)

theorem cancellation_ignored_witness:
  "run bstep [BConnect, GOpen, BCancel, GRecv] (b_init ''localhost:44135'' None None [EOF])
     = Some \<lparr>b_addr = ''localhost:44135'', b_dial = None, b_open = None, b_script = [],
            b_cancelled = True, b_msgc = [], b_msgc_closed = True, b_errc_closed = False,
            b_msgc_nil = False, b_errc_nil = False, b_g = G_CloseErrc, b_m = B_Loop,
            b_out = [], b_out_closes = 0, b_conn_closes = 0\<rparr>
   \<and> run bstep [BConnect, GOpen, GRecv] (b_init ''localhost:44135'' None None [EOF])
     = Some \<lparr>b_addr = ''localhost:44135'', b_dial = None, b_open = None, b_script = [],
            b_cancelled = False, b_msgc = [], b_msgc_closed = True, b_errc_closed = False,
            b_msgc_nil = False, b_errc_nil = False, b_g = G_CloseErrc, b_m = B_Loop,
            b_out = [], b_out_closes = 0, b_conn_closes = 0\<rparr>
   \<and> run sstep [SConnect, SCancel, SOpen, RRecv]
        (s_init ''localhost:44135'' None None [] False [] [EOF])
     = Some \<lparr>s_addr = ''localhost:44135'', s_dial = None, s_open = None, s_reqs = [],
            s_reqs_close = False, s_sendres = [], s_script = [], s_cancelled = True,
            s_done_closed = True, s_msgc_closes = 0, s_errc_closes = 0, s_send_closed = False,
            s_sent = [], s_r = R_Fin, s_f = F_Range, s_m = S_Loop,
            s_out = [], s_out_closes = 0, s_conn_closes = 0\<rparr>
   \<and> run sstep [SConnect, SOpen, RRecv]
        (s_init ''localhost:44135'' None None [] False [] [EOF])
     = Some \<lparr>s_addr = ''localhost:44135'', s_dial = None, s_open = None, s_reqs = [],
            s_reqs_close = False, s_sendres = [], s_script = [], s_cancelled = False,
            s_done_closed = True, s_msgc_closes = 0, s_errc_closes = 0, s_send_closed = False,
            s_sent = [], s_r = R_Fin, s_f = F_Range, s_m = S_Loop,
            s_out = [], s_out_closes = 0, s_conn_closes = 0\<rparr>"
proof -
  have b: "run bstep [BConnect, GOpen, BCancel, GRecv] (b_init ''localhost:44135'' None None [EOF])
     = Some \<lparr>b_addr = ''localhost:44135'', b_dial = None, b_open = None, b_script = [],
            b_cancelled = True, b_msgc = [], b_msgc_closed = True, b_errc_closed = False,
            b_msgc_nil = False, b_errc_nil = False, b_g = G_CloseErrc, b_m = B_Loop,
            b_out = [], b_out_closes = 0, b_conn_closes = 0\<rparr>"
    by (simp add: b_init_def stream_Recv_def rpcctx_def ctx_done_def)
  have s: "run sstep [SConnect, SCancel, SOpen, RRecv]
        (s_init ''localhost:44135'' None None [] False [] [EOF])
     = Some \<lparr>s_addr = ''localhost:44135'', s_dial = None, s_open = None, s_reqs = [],
            s_reqs_close = False, s_sendres = [], s_script = [], s_cancelled = True,
            s_done_closed = True, s_msgc_closes = 0, s_errc_closes = 0, s_send_closed = False,
            s_sent = [], s_r = R_Fin, s_f = F_Range, s_m = S_Loop,
            s_out = [], s_out_closes = 0, s_conn_closes = 0\<rparr>"
    by (simp add: s_init_def stream_Recv_def rpcctx_def ctx_done_def)
  from cancellation_ignored [of "[BConnect, GOpen, BCancel, GRecv]" "''localhost:44135''" None None "[EOF]" _
        "[SConnect, SCancel, SOpen, RRecv]" "[]" False "[]" _] b s
  show ?thesis by simp
qed


section \<open>Display: proofs\<close>

text \<open>The steps of \<open>Display\<close>, one case per branch.\<close>

lemma dstep_cases [consumes 1, case_names Cancel G1 G2 Create Forward Closed Done Send Close Stop Wait
    IRecv IZero IDone OFinal OBlank OSpin ODel OWgDone]:
  assumes "dstep l s = Some s'"
  obtains
    "l = DCancel" "s' = s\<lparr>d_root_cancelled := True\<rparr>"
  | "l = G1" "\<not> d_g1 s" "d_root_cancelled s \<or> done_closed (d_cli s)" "s' = s\<lparr>d_g1 := True\<rparr>"
  | cli' r where "l = G2" "d_g1 s" "\<not> d_g2 s" "Stop (d_cli s) = Inr (cli', r)"
      "s' = s\<lparr>d_cli := cli', d_g2 := True\<rparr>"
  | x xs where "l = MRecv" "d_m s = D_Loop" "d_input s = x # xs"
      "map_of (d_ongoing s) (StageDesc x) = None"
      "s' = s\<lparr>d_input := xs, d_seen := d_seen s @ [x],
               d_ongoing := (StageDesc x, length (d_stages s)) # d_ongoing s,
               d_wg := Suc (d_wg s),
               d_stages := d_stages s @ [new_stage (StageDesc x) (StatusCode x)]\<rparr>"
  | x xs i where "l = MRecv" "d_m s = D_Loop" "d_input s = x # xs"
      "map_of (d_ongoing s) (StageDesc x) = Some i"
      "s' = s\<lparr>d_input := xs, d_seen := d_seen s @ [x], d_m := D_Send i (StatusCode x)\<rparr>"
  | "l = MClosed" "d_m s = D_Loop" "d_input s = []" "d_input_close s" "s' = s\<lparr>d_m := D_Defer []\<rparr>"
  | "l = MDone" "d_m s = D_Loop" "done_closed (d_cli s)" "s' = s\<lparr>d_m := D_Defer []\<rparr>"
  | i c where "l = MSend" "d_m s = D_Send i c" "i < length (d_stages s)"
      "\<not> st_codes_closed (d_stages s ! i)" "st_codes (d_stages s ! i) = []"
      "s' = set_stage i ((d_stages s ! i)\<lparr>st_codes := st_codes (d_stages s ! i) @ [c],
                                          st_fwd := st_fwd (d_stages s ! i) @ [c]\<rparr>)
              (s\<lparr>d_m := D_Loop\<rparr>)"
  | d vis i where "l = MClose d" "d_m s = D_Defer vis" "map_of (d_ongoing s) d = Some i"
      "d \<notin> set vis" "i < length (d_stages s)" "\<not> st_codes_closed (d_stages s ! i)"
      "s' = set_stage i ((d_stages s ! i)\<lparr>st_codes_closed := True\<rparr>) (s\<lparr>d_m := D_Defer (d # vis)\<rparr>)"
  | vis cli' r where "l = MStop" "d_m s = D_Defer vis"
      "list_all (\<lambda>(d, i). d \<in> set vis) (d_ongoing s)" "Stop (d_cli s) = Inr (cli', r)"
      "s' = s\<lparr>d_cli := cli', d_m := D_Wait\<rparr>"
  | "l = MWait" "d_m s = D_Wait" "d_wg s = 0" "s' = s\<lparr>d_m := D_Ret\<rparr>"
  | i c cs where "l = IRecv i" "i < length (d_stages s)" "st_inner (d_stages s ! i) = I_Loop"
      "st_codes (d_stages s ! i) = c # cs"
      "s' = set_stage i (inner_received c
              ((d_stages s ! i)\<lparr>st_codes := cs, st_rcvd := st_rcvd (d_stages s ! i) @ [c]\<rparr>)) s"
  | i where "l = IRecv i" "i < length (d_stages s)" "st_inner (d_stages s ! i) = I_Loop"
      "st_codes (d_stages s ! i) = []" "st_codes_closed (d_stages s ! i)"
      "s' = set_stage i (inner_received PENDING
              ((d_stages s ! i)\<lparr>st_zeros := Suc (st_zeros (d_stages s ! i))\<rparr>)) s"
  | i where "l = IDone i" "i < length (d_stages s)" "st_inner (d_stages s ! i) = I_Loop"
      "done_closed (d_cli s)"
      "s' = set_stage i ((d_stages s ! i)\<lparr>st_done_closed := True, st_inner := I_Fin\<rparr>) s"
  | i c cs where "l = OMsg i" "i < length (d_stages s)" "st_outer (d_stages s ! i) = O_Loop"
      "st_done (d_stages s ! i) = c # cs"
      "s' = set_stage i ((d_stages s ! i)\<lparr>st_done := cs, st_outer := O_Del\<rparr>)
              (s\<lparr>d_sink := d_sink s @ [Final i (st_desc (d_stages s ! i)) c]\<rparr>)"
  | i where "l = OMsg i" "i < length (d_stages s)" "st_outer (d_stages s ! i) = O_Loop"
      "st_done (d_stages s ! i) = []" "st_done_closed (d_stages s ! i)"
      "s' = set_stage i ((d_stages s ! i)\<lparr>st_outer := O_Del\<rparr>)
              (s\<lparr>d_sink := d_sink s @ [Blank i]\<rparr>)"
  | i where "l = OSpin i" "i < length (d_stages s)" "st_outer (d_stages s ! i) = O_Loop"
      "st_done (d_stages s ! i) = []" "\<not> st_done_closed (d_stages s ! i)"
      "s' = set_stage i ((d_stages s ! i)\<lparr>st_spin := Suc (st_spin (d_stages s ! i))\<rparr>)
              (s\<lparr>d_sink := d_sink s @ [Frame i (st_spin (d_stages s ! i) mod 5)]\<rparr>)"
  | i where "l = ODel i" "i < length (d_stages s)" "st_outer (d_stages s ! i) = O_Del"
      "s' = set_stage i ((d_stages s ! i)\<lparr>st_outer := O_WgDone\<rparr>)
              (s\<lparr>d_ongoing := filter (\<lambda>(k, v). k \<noteq> st_desc (d_stages s ! i)) (d_ongoing s)\<rparr>)"
  | i where "l = OWgDone i" "i < length (d_stages s)" "st_outer (d_stages s ! i) = O_WgDone"
      "0 < d_wg s"
      "s' = set_stage i ((d_stages s ! i)\<lparr>st_outer := O_Fin\<rparr>) (s\<lparr>d_wg := d_wg s - 1\<rparr>)"
proof (cases l)
  case DCancel
  with assms have "s' = s\<lparr>d_root_cancelled := True\<rparr>" by simp
  with DCancel show ?thesis by (rule that(1))
next
  case G1
  with assms have "\<not> d_g1 s" "d_root_cancelled s \<or> done_closed (d_cli s)" "s' = s\<lparr>d_g1 := True\<rparr>"
    by (simp_all split: if_splits)
  with G1 show ?thesis by (rule that(2))
next
  case G2
  with assms have g: "d_g1 s" "\<not> d_g2 s" by (simp_all split: if_splits)
  show ?thesis
  proof (cases "Stop (d_cli s)")
    case (Inl p)
    with assms G2 g show ?thesis by simp
  next
    case (Inr b)
    obtain cli' r where b: "b = (cli', r)" by (cases b)
    with assms G2 g Inr have "s' = s\<lparr>d_cli := cli', d_g2 := True\<rparr>" by simp
    with G2 g Inr [unfolded b] show ?thesis by (rule that(3))
  qed
next
  case MRecv
  with assms have m: "d_m s = D_Loop" by (simp split: if_splits)
  show ?thesis
  proof (cases "d_input s")
    case Nil
    with assms MRecv m show ?thesis by simp
  next
    case (Cons x xs)
    show ?thesis
    proof (cases "map_of (d_ongoing s) (StageDesc x)")
      case None
      with assms MRecv m Cons
      have "s' = s\<lparr>d_input := xs, d_seen := d_seen s @ [x],
               d_ongoing := (StageDesc x, length (d_stages s)) # d_ongoing s,
               d_wg := Suc (d_wg s),
               d_stages := d_stages s @ [new_stage (StageDesc x) (StatusCode x)]\<rparr>" by simp
      with MRecv m Cons None show ?thesis by (rule that(4))
    next
      case (Some i)
      with assms MRecv m Cons
      have "s' = s\<lparr>d_input := xs, d_seen := d_seen s @ [x], d_m := D_Send i (StatusCode x)\<rparr>"
        by simp
      with MRecv m Cons Some show ?thesis by (rule that(5))
    qed
  qed
next
  case MClosed
  with assms have "d_m s = D_Loop" "d_input s = []" "d_input_close s" "s' = s\<lparr>d_m := D_Defer []\<rparr>"
    by (simp_all split: if_splits)
  with MClosed show ?thesis by (rule that(6))
next
  case MDone
  with assms have "d_m s = D_Loop" "done_closed (d_cli s)" "s' = s\<lparr>d_m := D_Defer []\<rparr>"
    by (simp_all split: if_splits)
  with MDone show ?thesis by (rule that(7))
next
  case MSend
  with assms obtain i c where m: "d_m s = D_Send i c" by (cases "d_m s") simp_all
  with assms MSend have g: "i < length (d_stages s)" "\<not> st_codes_closed (d_stages s ! i)"
      "st_codes (d_stages s ! i) = []"
    by (simp_all split: if_splits)
  with assms MSend m
  have "s' = set_stage i ((d_stages s ! i)\<lparr>st_codes := st_codes (d_stages s ! i) @ [c],
                                          st_fwd := st_fwd (d_stages s ! i) @ [c]\<rparr>)
              (s\<lparr>d_m := D_Loop\<rparr>)" by simp
  with MSend m g show ?thesis by (rule that(8))
next
  case (MClose d)
  with assms obtain vis where m: "d_m s = D_Defer vis" by (cases "d_m s") simp_all
  with assms MClose obtain i where o: "map_of (d_ongoing s) d = Some i"
    by (cases "map_of (d_ongoing s) d") simp_all
  with assms MClose m have g: "d \<notin> set vis" "i < length (d_stages s)"
      "\<not> st_codes_closed (d_stages s ! i)"
    by (simp_all split: if_splits)
  with assms MClose m o
  have "s' = set_stage i ((d_stages s ! i)\<lparr>st_codes_closed := True\<rparr>) (s\<lparr>d_m := D_Defer (d # vis)\<rparr>)"
    by simp
  with MClose m o g show ?thesis by (rule that(9))
next
  case MStop
  with assms obtain vis where m: "d_m s = D_Defer vis" by (cases "d_m s") simp_all
  with assms MStop have g: "list_all (\<lambda>(d, i). d \<in> set vis) (d_ongoing s)"
    by (simp split: if_splits)
  show ?thesis
  proof (cases "Stop (d_cli s)")
    case (Inl p)
    with assms MStop m g show ?thesis by simp
  next
    case (Inr b)
    obtain cli' r where b: "b = (cli', r)" by (cases b)
    with assms MStop m g Inr have "s' = s\<lparr>d_cli := cli', d_m := D_Wait\<rparr>" by simp
    with MStop m g Inr [unfolded b] show ?thesis by (rule that(10))
  qed
next
  case MWait
  with assms have "d_m s = D_Wait" "d_wg s = 0" "s' = s\<lparr>d_m := D_Ret\<rparr>"
    by (simp_all split: if_splits)
  with MWait show ?thesis by (rule that(11))
next
  case (IRecv i)
  with assms have g: "i < length (d_stages s)" "st_inner (d_stages s ! i) = I_Loop"
    by (simp_all split: if_splits)
  show ?thesis
  proof (cases "st_codes (d_stages s ! i)")
    case Nil
    with assms IRecv g have c: "st_codes_closed (d_stages s ! i)" by (simp split: if_splits)
    with assms IRecv g Nil
    have "s' = set_stage i (inner_received PENDING
              ((d_stages s ! i)\<lparr>st_zeros := Suc (st_zeros (d_stages s ! i))\<rparr>)) s" by simp
    with IRecv g Nil c show ?thesis by (rule that(13))
  next
    case (Cons c cs)
    with assms IRecv g
    have "s' = set_stage i (inner_received c
              ((d_stages s ! i)\<lparr>st_codes := cs, st_rcvd := st_rcvd (d_stages s ! i) @ [c]\<rparr>)) s"
      by simp
    with IRecv g Cons show ?thesis by (rule that(12))
  qed
next
  case (IDone i)
  with assms have "i < length (d_stages s)" "st_inner (d_stages s ! i) = I_Loop"
      "done_closed (d_cli s)"
      "s' = set_stage i ((d_stages s ! i)\<lparr>st_done_closed := True, st_inner := I_Fin\<rparr>) s"
    by (simp_all split: if_splits)
  with IDone show ?thesis by (rule that(14))
next
  case (OMsg i)
  with assms have g: "i < length (d_stages s)" "st_outer (d_stages s ! i) = O_Loop"
    by (simp_all split: if_splits)
  show ?thesis
  proof (cases "st_done (d_stages s ! i)")
    case Nil
    with assms OMsg g have c: "st_done_closed (d_stages s ! i)" by (simp split: if_splits)
    with assms OMsg g Nil
    have "s' = set_stage i ((d_stages s ! i)\<lparr>st_outer := O_Del\<rparr>)
              (s\<lparr>d_sink := d_sink s @ [Blank i]\<rparr>)" by simp
    with OMsg g Nil c show ?thesis by (rule that(16))
  next
    case (Cons c cs)
    with assms OMsg g
    have "s' = set_stage i ((d_stages s ! i)\<lparr>st_done := cs, st_outer := O_Del\<rparr>)
              (s\<lparr>d_sink := d_sink s @ [Final i (st_desc (d_stages s ! i)) c]\<rparr>)" by simp
    with OMsg g Cons show ?thesis by (rule that(15))
  qed
next
  case (OSpin i)
  with assms have "i < length (d_stages s)" "st_outer (d_stages s ! i) = O_Loop"
      "st_done (d_stages s ! i) = []" "\<not> st_done_closed (d_stages s ! i)"
      "s' = set_stage i ((d_stages s ! i)\<lparr>st_spin := Suc (st_spin (d_stages s ! i))\<rparr>)
              (s\<lparr>d_sink := d_sink s @ [Frame i (st_spin (d_stages s ! i) mod 5)]\<rparr>)"
    by (simp_all split: if_splits)
  with OSpin show ?thesis by (rule that(17))
next
  case (ODel i)
  with assms have "i < length (d_stages s)" "st_outer (d_stages s ! i) = O_Del"
      "s' = set_stage i ((d_stages s ! i)\<lparr>st_outer := O_WgDone\<rparr>)
              (s\<lparr>d_ongoing := filter (\<lambda>(k, v). k \<noteq> st_desc (d_stages s ! i)) (d_ongoing s)\<rparr>)"
    by (simp_all split: if_splits)
  with ODel show ?thesis by (rule that(18))
next
  case (OWgDone i)
  with assms have "i < length (d_stages s)" "st_outer (d_stages s ! i) = O_WgDone" "0 < d_wg s"
      "s' = set_stage i ((d_stages s ! i)\<lparr>st_outer := O_Fin\<rparr>) (s\<lparr>d_wg := d_wg s - 1\<rparr>)"
    by (simp_all split: if_splits)
  with OWgDone show ?thesis by (rule that(19))
qed


lemma inner_received_simps [simp]:
  "st_desc (inner_received c st) = st_desc st"
  "st_first (inner_received c st) = st_first st"
  "st_fwd (inner_received c st) = st_fwd st"
  "st_rcvd (inner_received c st) = st_rcvd st"
  "st_codes (inner_received c st) = st_codes st"
  "st_codes_closed (inner_received c st) = st_codes_closed st"
  "st_zeros (inner_received c st) = st_zeros st"
  "st_outer (inner_received c st) = st_outer st"
  "st_done (inner_received c st) = (if c = PENDING then st_done st else [c])"
  by (cases c; simp add: inner_received_def)+

lemma set_stage_simps [simp]:
  "d_stages (set_stage i st s) = (d_stages s)[i := st]"
  "d_sink (set_stage i st s) = d_sink s"
  "d_m (set_stage i st s) = d_m s"
  "d_ongoing (set_stage i st s) = d_ongoing s"
  "d_seen (set_stage i st s) = d_seen s"
  "d_input (set_stage i st s) = d_input s"
  "d_wg (set_stage i st s) = d_wg s"
  "d_cli (set_stage i st s) = d_cli s"
  by (simp_all add: set_stage_def)

lemma stage_inv_other:
  "stage_inv sink j st \<Longrightarrow> \<not> is_final_of j w \<Longrightarrow> stage_inv (sink @ [w]) j st"
  by (auto simp: stage_inv_def is_final_of_def)

lemma d_inv_update:
  assumes "d_inv s" "i < length (d_stages s)"
    and "\<forall>j. j \<noteq> i \<longrightarrow> list_all (\<lambda>w. \<not> is_final_of j w) ws"
    and "stage_inv (d_sink s @ ws) i st'"
    and "d_stages s' = (d_stages s)[i := st']" "d_sink s' = d_sink s @ ws"
  shows "d_inv s'"
proof -
  have a: "stage_inv (d_sink s') j (d_stages s' ! j)" if j: "j < length (d_stages s')" for j
  proof (cases "j = i")
    case True
    with assms j show ?thesis by simp
  next
    case False
    with assms(3) have n: "list_all (\<lambda>w. \<not> is_final_of j w) ws" by blast
    from j assms(5) have "j < length (d_stages s)" by simp
    with assms(1) have "stage_inv (d_sink s) j (d_stages s ! j)" by (simp add: d_inv_def)
    with n have "stage_inv (d_sink s @ ws) j (d_stages s ! j)"
      by (auto simp: stage_inv_def is_final_of_def list_all_iff split: sink_write.splits)
    with False assms(5,6) show ?thesis by simp
  qed
  have b: "j < length (d_stages s')" if "Final j d c \<in> set (d_sink s')" for j d c
  proof (cases "Final j d c \<in> set (d_sink s)")
    case True
    with assms(1,5) show ?thesis by (auto simp: d_inv_def)
  next
    case False
    with that assms(6) have w: "Final j d c \<in> set ws" by simp
    have "j = i"
    proof (rule ccontr)
      assume "j \<noteq> i"
      with assms(3) have "list_all (\<lambda>w. \<not> is_final_of j w) ws" by blast
      with w show False by (auto simp: list_all_iff is_final_of_def)
    qed
    with assms(2,5) show ?thesis by simp
  qed
  from a b show ?thesis unfolding d_inv_def by blast
qed

lemma d_inv_same:
  "d_inv s \<Longrightarrow> d_stages s' = d_stages s \<Longrightarrow> d_sink s' = d_sink s \<Longrightarrow> d_inv s'"
  by (simp add: d_inv_def)

lemma d_inv_init: "d_inv (d_init app inp cls)"
  by (simp add: d_inv_def d_init_def)

lemma d_inv_stage: "d_inv s \<Longrightarrow> i < length (d_stages s) \<Longrightarrow> stage_inv (d_sink s) i (d_stages s ! i)"
  by (simp add: d_inv_def)

lemma d_inv_step:
  assumes "dstep l s = Some s'" "d_inv s"
  shows "d_inv s'"
  using assms(1)
proof (cases rule: dstep_cases)
  case Cancel
  with assms(2) show ?thesis by (simp add: d_inv_def)
next
  case G1
  with assms(2) show ?thesis by (simp add: d_inv_def)
next
  case (G2 cli' r)
  with assms(2) show ?thesis by (simp add: d_inv_def)
next
  case (Create x xs)
  have "stage_inv (d_sink s) (length (d_stages s)) (new_stage (StageDesc x) (StatusCode x))"
  proof -
    have "\<And>d c. Final (length (d_stages s)) d c \<notin> set (d_sink s)"
      using assms(2) by (auto simp: d_inv_def)
    then have "filter (is_final_of (length (d_stages s))) (d_sink s) = []"
      by (auto simp: filter_empty_conv is_final_of_def split: sink_write.splits)
    then show ?thesis
      using \<open>\<And>d c. Final (length (d_stages s)) d c \<notin> set (d_sink s)\<close>
      by (simp add: stage_inv_def new_stage_def)
  qed
  with assms(2) Create show ?thesis
    by (auto simp: d_inv_def nth_append less_Suc_eq)
next
  case (Forward x xs i)
  with assms(2) show ?thesis by (simp add: d_inv_def)
next
  case Closed
  with assms(2) show ?thesis by (simp add: d_inv_def)
next
  case Done
  with assms(2) show ?thesis by (simp add: d_inv_def)
next
  case (Send i c)
  let ?st = "d_stages s ! i"
  from d_inv_stage [OF assms(2) Send(3)] Send(4)
  have "stage_inv (d_sink s @ []) i (?st\<lparr>st_codes := st_codes ?st @ [c], st_fwd := st_fwd ?st @ [c]\<rparr>)"
    by (simp add: stage_inv_def)
  from d_inv_update [OF assms(2) Send(3) _ this, of s'] Send show ?thesis by simp
next
  case (Close d vis i)
  let ?st = "d_stages s ! i"
  from d_inv_stage [OF assms(2) Close(5)]
  have "stage_inv (d_sink s @ []) i (?st\<lparr>st_codes_closed := True\<rparr>)"
    by (simp add: stage_inv_def)
  from d_inv_update [OF assms(2) Close(5) _ this, of s'] Close show ?thesis by simp
next
  case (Stop vis cli' r)
  with assms(2) show ?thesis by (simp add: d_inv_def)
next
  case Wait
  with assms(2) show ?thesis by (simp add: d_inv_def)
next
  case (IRecv i c cs)
  let ?st = "d_stages s ! i"
  from d_inv_stage [OF assms(2) IRecv(2)] IRecv(4)
  have "stage_inv (d_sink s @ []) i
          (inner_received c (?st\<lparr>st_codes := cs, st_rcvd := st_rcvd ?st @ [c]\<rparr>))"
    by (auto simp: stage_inv_def)
  from d_inv_update [OF assms(2) IRecv(2) _ this, of s'] IRecv show ?thesis by simp
next
  case (IZero i)
  let ?st = "d_stages s ! i"
  from d_inv_stage [OF assms(2) IZero(2)] IZero(4,5)
  have "stage_inv (d_sink s @ []) i (inner_received PENDING (?st\<lparr>st_zeros := Suc (st_zeros ?st)\<rparr>))"
    by (auto simp: stage_inv_def)
  from d_inv_update [OF assms(2) IZero(2) _ this, of s'] IZero show ?thesis by simp
next
  case (IDone i)
  let ?st = "d_stages s ! i"
  from d_inv_stage [OF assms(2) IDone(2)]
  have "stage_inv (d_sink s @ []) i (?st\<lparr>st_done_closed := True, st_inner := I_Fin\<rparr>)"
    by (auto simp: stage_inv_def)
  from d_inv_update [OF assms(2) IDone(2) _ this, of s'] IDone show ?thesis by simp
next
  case (OFinal i c cs)
  let ?st = "d_stages s ! i"
  from d_inv_stage [OF assms(2) OFinal(2)] OFinal(3,4)
  have "stage_inv (d_sink s @ [Final i (st_desc ?st) c]) i (?st\<lparr>st_done := cs, st_outer := O_Del\<rparr>)"
    by (auto simp: stage_inv_def is_final_of_def)
  from d_inv_update [OF assms(2) OFinal(2) _ this, of s'] OFinal show ?thesis
    by (simp add: is_final_of_def)
next
  case (OBlank i)
  let ?st = "d_stages s ! i"
  from d_inv_stage [OF assms(2) OBlank(2)] OBlank(3)
  have "stage_inv (d_sink s @ [Blank i]) i (?st\<lparr>st_outer := O_Del\<rparr>)"
    by (auto simp: stage_inv_def is_final_of_def)
  from d_inv_update [OF assms(2) OBlank(2) _ this, of s'] OBlank show ?thesis
    by (simp add: is_final_of_def)
next
  case (OSpin i)
  let ?st = "d_stages s ! i"
  from d_inv_stage [OF assms(2) OSpin(2)] OSpin(3)
  have "stage_inv (d_sink s @ [Frame i (st_spin ?st mod 5)]) i (?st\<lparr>st_spin := Suc (st_spin ?st)\<rparr>)"
    by (auto simp: stage_inv_def is_final_of_def)
  from d_inv_update [OF assms(2) OSpin(2) _ this, of s'] OSpin show ?thesis
    by (simp add: is_final_of_def)
next
  case (ODel i)
  let ?st = "d_stages s ! i"
  from d_inv_stage [OF assms(2) ODel(2)] ODel(3)
  have "stage_inv (d_sink s @ []) i (?st\<lparr>st_outer := O_WgDone\<rparr>)"
    by (auto simp: stage_inv_def)
  from d_inv_update [OF assms(2) ODel(2) _ this, of s'] ODel show ?thesis by simp
next
  case (OWgDone i)
  let ?st = "d_stages s ! i"
  from d_inv_stage [OF assms(2) OWgDone(2)] OWgDone(3)
  have "stage_inv (d_sink s @ []) i (?st\<lparr>st_outer := O_Fin\<rparr>)"
    by (auto simp: stage_inv_def)
  from d_inv_update [OF assms(2) OWgDone(2) _ this, of s'] OWgDone show ?thesis by simp
qed


lemma map_desc_update:
  "i < length sts \<Longrightarrow> st_desc st' = st_desc (sts ! i) \<Longrightarrow> map st_desc (sts[i := st']) = map st_desc sts"
  by (simp add: map_update list_update_same_conv)

lemma last_of_append:
  "last_of ds d i \<Longrightarrow> d' \<noteq> d \<Longrightarrow> last_of (ds @ [d']) d i"
  by (auto simp: last_of_def nth_append less_Suc_eq)

lemma last_of_new: "last_of (ds @ [d]) d (length ds)"
  by (auto simp add: last_of_def)

lemma d_wf_init: "d_wf (d_init app inp cls)"
  by (simp add: d_wf_def d_init_def)

lemma d_wf_same:
  "d_wf s \<Longrightarrow> map st_desc (d_stages s') = map st_desc (d_stages s) \<Longrightarrow> length (d_stages s') = length (d_stages s)
   \<Longrightarrow> set (d_ongoing s') \<subseteq> set (d_ongoing s) \<Longrightarrow> d_m s' = d_m s \<Longrightarrow> d_wf s'"
  by (auto simp: d_wf_def split: d_mpc.splits)

lemma d_wf_step:
  assumes "dstep l s = Some s'" "d_wf s"
  shows "d_wf s'"
  using assms(1)
proof (cases rule: dstep_cases)
  case Cancel
  with assms(2) show ?thesis by (auto intro!: d_wf_same [of s])
next
  case G1
  with assms(2) show ?thesis by (auto intro!: d_wf_same [of s])
next
  case (G2 cli' r)
  with assms(2) show ?thesis by (auto intro!: d_wf_same [of s])
next
  case (Create x xs)
  let ?ds = "map st_desc (d_stages s)"
  have new: "map st_desc (d_stages s') = ?ds @ [StageDesc x]"
    using Create by (simp add: new_stage_def)
  have "last_of (?ds @ [StageDesc x]) d i" if "(d, i) \<in> set (d_ongoing s')" for d i
  proof (cases "(d, i) \<in> set (d_ongoing s)")
    case True
    with Create(4) have "d \<noteq> StageDesc x"
      by (auto simp: map_of_eq_None_iff image_iff)
    moreover from True assms(2) have "last_of ?ds d i" by (auto simp: d_wf_def)
    ultimately show ?thesis by (intro last_of_append) auto
  next
    case False
    with that Create have "d = StageDesc x" "i = length ?ds" by simp_all
    with last_of_new [of ?ds "StageDesc x"] show ?thesis by simp
  qed
  moreover have "d_m s' = D_Loop" using Create by simp
  ultimately show ?thesis unfolding d_wf_def new by auto
next
  case (Forward x xs i)
  from Forward(4) have "(StageDesc x, i) \<in> set (d_ongoing s)" by (rule map_of_SomeD)
  with assms(2) have "last_of (map st_desc (d_stages s)) (StageDesc x) i" by (auto simp: d_wf_def)
  with assms(2) Forward show ?thesis by (auto simp: d_wf_def last_of_def)
next
  case Closed
  with assms(2) show ?thesis by (simp add: d_wf_def)
next
  case Done
  with assms(2) show ?thesis by (simp add: d_wf_def)
next
  case (Send i c)
  with assms(2) show ?thesis by (simp add: d_wf_def map_desc_update)
next
  case (Close d vis i)
  with assms(2) show ?thesis by (simp add: d_wf_def map_desc_update)
next
  case (Stop vis cli' r)
  with assms(2) show ?thesis by (simp add: d_wf_def)
next
  case Wait
  with assms(2) show ?thesis by (simp add: d_wf_def)
next
  case (IRecv i c cs)
  with assms(2) show ?thesis by (auto intro!: d_wf_same [of s] simp: map_desc_update)
next
  case (IZero i)
  with assms(2) show ?thesis by (auto intro!: d_wf_same [of s] simp: map_desc_update)
next
  case (IDone i)
  with assms(2) show ?thesis by (auto intro!: d_wf_same [of s] simp: map_desc_update)
next
  case (OFinal i c cs)
  with assms(2) show ?thesis by (auto intro!: d_wf_same [of s] simp: map_desc_update)
next
  case (OBlank i)
  with assms(2) show ?thesis by (auto intro!: d_wf_same [of s] simp: map_desc_update)
next
  case (OSpin i)
  with assms(2) show ?thesis by (auto intro!: d_wf_same [of s] simp: map_desc_update)
next
  case (ODel i)
  with assms(2) show ?thesis by (auto intro!: d_wf_same [of s] simp: map_desc_update)
next
  case (OWgDone i)
  with assms(2) show ?thesis by (auto intro!: d_wf_same [of s] simp: map_desc_update)
qed


lemma map_fst_sigs: "map fst (sigs sts) = map st_desc sts"
  by (simp add: sigs_def)

lemma sigs_append: "sigs (sts @ [st]) = sigs sts @ [(st_desc st, st_first st # st_fwd st)]"
  by (simp add: sigs_def)

lemma fwd_for_append: "fwd_for d (sg @ [(d', w)]) = fwd_for d sg @ (if d' = d then w else [])"
  by (simp add: fwd_for_def)

lemma codes_for_append:
  "codes_for d (xs @ [x]) = codes_for d xs @ (if StageDesc x = d then [StatusCode x] else [])"
  by (simp add: codes_for_def)

lemma codes_for_app: "codes_for d (xs @ ys) = codes_for d xs @ codes_for d ys"
  by (simp add: codes_for_def)

lemma sigs_update_same:
  "i < length sts \<Longrightarrow> st_desc st' = st_desc (sts ! i) \<Longrightarrow> st_first st' = st_first (sts ! i)
   \<Longrightarrow> st_fwd st' = st_fwd (sts ! i) \<Longrightarrow> sigs (sts[i := st']) = sigs sts"
  by (simp add: sigs_def map_update list_update_same_conv)

lemma sigs_update:
  "sigs (sts[i := st']) = (sigs sts)[i := (st_desc st', st_first st' # st_fwd st')]"
  by (simp add: sigs_def map_update)

lemma sigs_nth: "i < length sts \<Longrightarrow> sigs sts ! i = (st_desc (sts ! i), st_first (sts ! i) # st_fwd (sts ! i))"
  by (simp add: sigs_def)

lemma fwd_for_update_last:
  assumes "last_of (map fst sg) d0 i" "sg ! i = (d0, w)"
  shows "fwd_for d (sg[i := (d0, w @ [c])]) = fwd_for d sg @ (if d = d0 then [c] else [])"
proof -
  from assms(1) have i: "i < length sg" by (simp add: last_of_def)
  have later: "fst p \<noteq> d0" if "p \<in> set (drop (Suc i) sg)" for p
  proof -
    from that obtain k where k: "k < length (drop (Suc i) sg)" "p = drop (Suc i) sg ! k"
      by (auto simp: in_set_conv_nth)
    then have "Suc i + k < length sg" "p = sg ! (Suc i + k)" by simp_all
    with assms(1) show ?thesis by (auto simp: last_of_def)
  qed
  then have none: "filter (\<lambda>p. fst p = d0) (drop (Suc i) sg) = []"
    by (auto simp: filter_empty_conv)
  have a: "sg = take i sg @ (d0, w) # drop (Suc i) sg"
    using i assms(2) by (metis id_take_nth_drop)
  have b: "sg[i := (d0, w @ [c])] = take i sg @ (d0, w @ [c]) # drop (Suc i) sg"
    using i by (rule upd_conv_take_nth_drop)
  have "fwd_for d (take i sg @ (d0, w @ [c]) # drop (Suc i) sg)
        = fwd_for d (take i sg @ (d0, w) # drop (Suc i) sg) @ (if d = d0 then [c] else [])"
    using none by (simp add: fwd_for_def)
  with a b show ?thesis by simp
qed

lemma d_part_init: "d_part inp (d_init app inp cls)"
  by (simp add: d_part_def d_init_def sigs_def fwd_for_def codes_for_def d_pend_def)

lemma d_part_same:
  assumes "d_part inp s" "sigs (d_stages s') = sigs (d_stages s)" "d_seen s' = d_seen s"
    "d_input s' = d_input s"
    "d_m s' = d_m s \<or> (\<forall>i c. d_m s \<noteq> D_Send i c) \<and> (\<forall>i c. d_m s' \<noteq> D_Send i c)"
  shows "d_part inp s'"
proof -
  from assms(2) have ds: "map st_desc (d_stages s') = map st_desc (d_stages s)"
    by (metis map_fst_sigs)
  from assms(5) have "d_pend s' d = d_pend s d" for d
  proof
    assume "d_m s' = d_m s"
    then show ?thesis by (simp add: d_pend_def ds split: d_mpc.splits)
  next
    assume "(\<forall>i c. d_m s \<noteq> D_Send i c) \<and> (\<forall>i c. d_m s' \<noteq> D_Send i c)"
    then show ?thesis by (cases "d_m s"; cases "d_m s'") (simp_all add: d_pend_def)
  qed
  with assms(1-4) show ?thesis by (simp add: d_part_def)
qed

lemma d_part_step:
  assumes "dstep l s = Some s'" "d_wf s" "d_part inp s"
  shows "d_part inp s'"
  using assms(1)
proof (cases rule: dstep_cases)
  case Cancel
  with assms(3) show ?thesis by (auto intro!: d_part_same [of inp s])
next
  case G1
  with assms(3) show ?thesis by (auto intro!: d_part_same [of inp s])
next
  case (G2 cli' r)
  with assms(3) show ?thesis by (auto intro!: d_part_same [of inp s])
next
  case (Create x xs)
  have p: "d_pend s d = []" "d_pend s' d = []" for d
    using Create by (simp_all add: d_pend_def)
  have f: "d_seen s' = d_seen s @ [x]" "d_input s' = xs"
    "d_stages s' = d_stages s @ [new_stage (StageDesc x) (StatusCode x)]"
    using Create by simp_all
  from assms(3) Create(3) show ?thesis
    unfolding d_part_def f p
    by (simp add: sigs_append fwd_for_append codes_for_append new_stage_def)
next
  case (Forward x xs i)
  from Forward(4) have "(StageDesc x, i) \<in> set (d_ongoing s)" by (rule map_of_SomeD)
  with assms(2) have "map st_desc (d_stages s) ! i = StageDesc x" by (auto simp: d_wf_def last_of_def)
  then have p: "d_pend s d = []" "d_pend s' d = (if StageDesc x = d then [StatusCode x] else [])" for d
    using Forward by (simp_all add: d_pend_def)
  have f: "d_seen s' = d_seen s @ [x]" "d_input s' = xs" "d_stages s' = d_stages s"
    using Forward by simp_all
  from assms(3) Forward(3) show ?thesis
    unfolding d_part_def f p
    by (simp add: codes_for_append)
next
  case Closed
  with assms(3) show ?thesis by (auto intro!: d_part_same [of inp s])
next
  case Done
  with assms(3) show ?thesis by (auto intro!: d_part_same [of inp s])
next
  case (Send i c)
  let ?st = "d_stages s ! i"
  let ?d0 = "st_desc ?st"
  from assms(2) Send(2,3) have last: "last_of (map fst (sigs (d_stages s))) ?d0 i"
    by (simp add: d_wf_def map_fst_sigs)
  have p: "d_pend s d = (if ?d0 = d then [c] else [])" "d_pend s' d = []" for d
    using Send by (simp_all add: d_pend_def)
  have sg: "sigs (d_stages s') = (sigs (d_stages s))[i := (?d0, (st_first ?st # st_fwd ?st) @ [c])]"
    using Send by (simp add: sigs_update)
  have "fwd_for d (sigs (d_stages s')) = fwd_for d (sigs (d_stages s)) @ (if d = ?d0 then [c] else [])" for d
    unfolding sg using last sigs_nth [OF Send(3)] by (rule fwd_for_update_last)
  note fw = this
  have f: "d_seen s' = d_seen s" "d_input s' = d_input s"
    using Send by simp_all
  have "fwd_for d (sigs (d_stages s')) @ d_pend s' d = codes_for d (d_seen s')" for d
  proof -
    from assms(3) have "fwd_for d (sigs (d_stages s)) @ d_pend s d = codes_for d (d_seen s)"
      by (simp add: d_part_def)
    then show ?thesis unfolding f p fw by (cases "d = ?d0") simp_all
  qed
  with assms(3) f show ?thesis by (simp add: d_part_def)
next
  case (Close d vis i)
  with assms(3) show ?thesis by (auto intro!: d_part_same [of inp s] simp: sigs_update_same)
next
  case (Stop vis cli' r)
  with assms(3) show ?thesis by (auto intro!: d_part_same [of inp s])
next
  case Wait
  with assms(3) show ?thesis by (auto intro!: d_part_same [of inp s])
next
  case (IRecv i c cs)
  with assms(3) show ?thesis by (auto intro!: d_part_same [of inp s] simp: sigs_update_same)
next
  case (IZero i)
  with assms(3) show ?thesis by (auto intro!: d_part_same [of inp s] simp: sigs_update_same)
next
  case (IDone i)
  with assms(3) show ?thesis by (auto intro!: d_part_same [of inp s] simp: sigs_update_same)
next
  case (OFinal i c cs)
  with assms(3) show ?thesis by (auto intro!: d_part_same [of inp s] simp: sigs_update_same)
next
  case (OBlank i)
  with assms(3) show ?thesis by (auto intro!: d_part_same [of inp s] simp: sigs_update_same)
next
  case (OSpin i)
  with assms(3) show ?thesis by (auto intro!: d_part_same [of inp s] simp: sigs_update_same)
next
  case (ODel i)
  with assms(3) show ?thesis by (auto intro!: d_part_same [of inp s] simp: sigs_update_same)
next
  case (OWgDone i)
  with assms(3) show ?thesis by (auto intro!: d_part_same [of inp s] simp: sigs_update_same)
qed

lemma d_invs_run:
  "run dstep sched s = Some s' \<Longrightarrow> d_inv s \<Longrightarrow> d_wf s \<Longrightarrow> d_part inp s
   \<Longrightarrow> d_inv s' \<and> d_wf s' \<and> d_part inp s'"
proof (induction sched arbitrary: s)
  case Nil
  then show ?case by simp
next
  case (Cons l ls)
  from Cons.prems(1) obtain s1 where 1: "dstep l s = Some s1" and 2: "run dstep ls s1 = Some s'"
    by (auto split: option.splits)
  from Cons.IH [OF 2 d_inv_step [OF 1 Cons.prems(2)] d_wf_step [OF 1 Cons.prems(3)]
       d_part_step [OF 1 Cons.prems(3,4)]]
  show ?case .
qed

lemma d_invs_reach:
  assumes "run dstep sched (d_init app inp cls) = Some s"
  shows "d_inv s" "d_wf s" "d_part inp s"
  using d_invs_run [OF assms d_inv_init d_wf_init d_part_init] by simp_all


lemma finals_set: "(i, d, c) \<in> set (finals ws) \<longleftrightarrow> Final i d c \<in> set ws"
  by (induction ws rule: finals.induct) auto

lemma finals_filter:
  "length (filter (\<lambda>(j, d, c). j = i) (finals ws)) = length (filter (is_final_of i) ws)"
  by (induction ws rule: finals.induct) (auto simp: is_final_of_def)

lemma in_tl_append: "x \<in> set (tl xs) \<Longrightarrow> x \<in> set (tl (xs @ ys))"
  by (cases xs) auto

lemma in_tl_fwd_for:
  assumes "i < length sg" "sg ! i = (d, f # w)" "c \<in> set w"
  shows "c \<in> set (tl (fwd_for d sg))"
proof -
  have dec: "sg = take i sg @ (d, f # w) # drop (Suc i) sg"
    using assms(1,2) by (metis id_take_nth_drop)
  have "fwd_for d (take i sg @ (d, f # w) # drop (Suc i) sg)
        = fwd_for d (take i sg) @ (f # w) @ fwd_for d (drop (Suc i) sg)"
    by (simp add: fwd_for_def)
  with arg_cong [where f = "fwd_for d", OF dec]
  have "fwd_for d sg = fwd_for d (take i sg) @ (f # w) @ fwd_for d (drop (Suc i) sg)"
    by (rule trans)
  with assms(3) show ?thesis by (cases "fwd_for d (take i sg)") auto
qed

lemma finals_append: "finals (xs @ ys) = finals xs @ finals ys"
  by (induction xs rule: finals.induct) simp_all

lemma finals_of_snoc [simp]:
  "finals_of i (ws @ [Final j d c]) = finals_of i ws @ (if j = i then [(j, d, c)] else [])"
  "finals_of i (ws @ [Blank j]) = finals_of i ws"
  "finals_of i (ws @ [Frame j k]) = finals_of i ws"
  "finals_of i (ws @ []) = finals_of i ws"
  by (simp_all add: finals_of_def finals_append)

lemma finals_of_empty: "(\<And>d c. Final i d c \<notin> set ws) \<Longrightarrow> finals_of i ws = []"
  by (auto simp: finals_of_def filter_empty_conv finals_set)

lemma first_terminal_snoc:
  "first_terminal cs = None \<Longrightarrow> first_terminal (cs @ [c]) = (if c = PENDING then None else Some c)"
  by (induction cs) (auto simp: first_terminal_def split: if_splits)

lemma d_fin_update:
  assumes "d_fin s" "i < length (d_stages s)"
    and "\<And>j st. j \<noteq> i \<Longrightarrow> finals_of j (d_sink s') = finals_of j (d_sink s)"
    and "stage_fin (d_sink s') i st'"
    and "d_stages s' = (d_stages s)[i := st']"
  shows "d_fin s'"
  unfolding d_fin_def
proof (intro allI impI)
  fix j assume j: "j < length (d_stages s')"
  show "stage_fin (d_sink s') j (d_stages s' ! j)"
  proof (cases "j = i")
    case True
    with assms j show ?thesis by simp
  next
    case False
    from j assms(5) have "j < length (d_stages s)" by simp
    with assms(1) have "stage_fin (d_sink s) j (d_stages s ! j)" by (simp add: d_fin_def)
    with assms(3) [OF False] have "stage_fin (d_sink s') j (d_stages s ! j)"
      by (simp add: stage_fin_def)
    with False assms(5) show ?thesis by simp
  qed
qed

lemma d_fin_stage: "d_fin s \<Longrightarrow> i < length (d_stages s) \<Longrightarrow> stage_fin (d_sink s) i (d_stages s ! i)"
  by (simp add: d_fin_def)

lemma d_fin_init: "d_fin (d_init app inp cls)"
  by (simp add: d_fin_def d_init_def)

lemma d_fin_step:
  assumes "dstep l s = Some s'" "d_inv s" "d_fin s"
  shows "d_fin s'"
  using assms(1)
proof (cases rule: dstep_cases)
  case Cancel
  with assms(3) show ?thesis by (simp add: d_fin_def)
next
  case G1
  with assms(3) show ?thesis by (simp add: d_fin_def)
next
  case (G2 cli' r)
  with assms(3) show ?thesis by (simp add: d_fin_def)
next
  case (Create x xs)
  have "\<And>d c. Final (length (d_stages s)) d c \<notin> set (d_sink s)"
    using assms(2) by (auto simp: d_inv_def)
  then have "finals_of (length (d_stages s)) (d_sink s) = []" by (rule finals_of_empty)
  then have "stage_fin (d_sink s) (length (d_stages s)) (new_stage (StageDesc x) (StatusCode x))"
    by (simp add: stage_fin_def new_stage_def first_terminal_def)
  with assms(3) Create show ?thesis
    by (auto simp: d_fin_def nth_append less_Suc_eq)
next
  case (Forward x xs i)
  with assms(3) show ?thesis by (simp add: d_fin_def)
next
  case Closed
  with assms(3) show ?thesis by (simp add: d_fin_def)
next
  case Done
  with assms(3) show ?thesis by (simp add: d_fin_def)
next
  case (Send i c)
  let ?st = "d_stages s ! i"
  from d_fin_stage [OF assms(3) Send(3)]
  have "stage_fin (d_sink s) i (?st\<lparr>st_codes := st_codes ?st @ [c], st_fwd := st_fwd ?st @ [c]\<rparr>)"
    by (simp add: stage_fin_def split: option.splits)
  with Send show ?thesis by (intro d_fin_update [OF assms(3) Send(3)]) simp_all
next
  case (Close d vis i)
  let ?st = "d_stages s ! i"
  from d_fin_stage [OF assms(3) Close(5)]
  have "stage_fin (d_sink s) i (?st\<lparr>st_codes_closed := True\<rparr>)"
    by (simp add: stage_fin_def split: option.splits)
  with Close show ?thesis by (intro d_fin_update [OF assms(3) Close(5)]) simp_all
next
  case (Stop vis cli' r)
  with assms(3) show ?thesis by (simp add: d_fin_def)
next
  case Wait
  with assms(3) show ?thesis by (simp add: d_fin_def)
next
  case (IRecv i c cs)
  let ?st = "d_stages s ! i"
  from d_fin_stage [OF assms(3) IRecv(2)] IRecv(3)
  have ft: "first_terminal (st_rcvd ?st) = None" and o: "st_outer ?st = O_Loop"
    and nc: "\<not> st_done_closed ?st" and fo: "finals_of i (d_sink s) = []" and dn: "st_done ?st = []"
    by (auto simp: stage_fin_def split: option.splits)
  have "stage_fin (d_sink s) i (inner_received c (?st\<lparr>st_codes := cs, st_rcvd := st_rcvd ?st @ [c]\<rparr>))"
    using ft o nc fo dn
    by (cases c) (simp_all add: stage_fin_def inner_received_def first_terminal_snoc)
  with IRecv show ?thesis by (intro d_fin_update [OF assms(3) IRecv(2)]) simp_all
next
  case (IZero i)
  let ?st = "d_stages s ! i"
  from d_fin_stage [OF assms(3) IZero(2)]
  have "stage_fin (d_sink s) i (inner_received PENDING (?st\<lparr>st_zeros := Suc (st_zeros ?st)\<rparr>))"
    by (simp add: stage_fin_def inner_received_def split: option.splits)
  with IZero show ?thesis by (intro d_fin_update [OF assms(3) IZero(2)]) simp_all
next
  case (IDone i)
  let ?st = "d_stages s ! i"
  from d_fin_stage [OF assms(3) IDone(2)] IDone(3)
  have "stage_fin (d_sink s) i (?st\<lparr>st_done_closed := True, st_inner := I_Fin\<rparr>)"
    by (auto simp: stage_fin_def split: option.splits)
  with IDone show ?thesis by (intro d_fin_update [OF assms(3) IDone(2)]) simp_all
next
  case (OFinal i c cs)
  let ?st = "d_stages s ! i"
  from d_fin_stage [OF assms(3) OFinal(2)] OFinal(3,4)
  have "stage_fin (d_sink s @ [Final i (st_desc ?st) c]) i (?st\<lparr>st_done := cs, st_outer := O_Del\<rparr>)"
    by (cases "st_inner ?st"; cases "first_terminal (st_rcvd ?st)") (auto simp: stage_fin_def split: option.splits)
  with OFinal show ?thesis by (intro d_fin_update [OF assms(3) OFinal(2)]) simp_all
next
  case (OBlank i)
  let ?st = "d_stages s ! i"
  from d_fin_stage [OF assms(3) OBlank(2)] OBlank(3,4,5)
  have "stage_fin (d_sink s @ [Blank i]) i (?st\<lparr>st_outer := O_Del\<rparr>)"
    by (cases "st_inner ?st"; cases "first_terminal (st_rcvd ?st)") (auto simp: stage_fin_def split: option.splits)
  with OBlank show ?thesis by (intro d_fin_update [OF assms(3) OBlank(2)]) simp_all
next
  case (OSpin i)
  let ?st = "d_stages s ! i"
  from d_fin_stage [OF assms(3) OSpin(2)] OSpin(3)
  have "stage_fin (d_sink s @ [Frame i (st_spin ?st mod 5)]) i (?st\<lparr>st_spin := Suc (st_spin ?st)\<rparr>)"
    by (auto simp: stage_fin_def split: option.splits)
  with OSpin show ?thesis by (intro d_fin_update [OF assms(3) OSpin(2)]) simp_all
next
  case (ODel i)
  let ?st = "d_stages s ! i"
  from d_fin_stage [OF assms(3) ODel(2)] ODel(3)
  have "stage_fin (d_sink s) i (?st\<lparr>st_outer := O_WgDone\<rparr>)"
    by (auto simp: stage_fin_def split: option.splits)
  with ODel show ?thesis by (intro d_fin_update [OF assms(3) ODel(2)]) simp_all
next
  case (OWgDone i)
  let ?st = "d_stages s ! i"
  from d_fin_stage [OF assms(3) OWgDone(2)] OWgDone(3)
  have "stage_fin (d_sink s) i (?st\<lparr>st_outer := O_Fin\<rparr>)"
    by (auto simp: stage_fin_def split: option.splits)
  with OWgDone show ?thesis by (intro d_fin_update [OF assms(3) OWgDone(2)]) simp_all
qed

lemma d_live_update:
  assumes "i < length sts"
  shows "d_live (sts[i := st']) + (if st_outer (sts ! i) \<noteq> O_Fin then 1 else 0)
         = d_live sts + (if st_outer st' \<noteq> O_Fin then 1 else 0)"
proof -
  have a: "sts = take i sts @ sts ! i # drop (Suc i) sts"
    using assms by (rule id_take_nth_drop)
  have b: "sts[i := st'] = take i sts @ st' # drop (Suc i) sts"
    using assms by (rule upd_conv_take_nth_drop)
  have "d_live (take i sts @ st' # drop (Suc i) sts) + (if st_outer (sts ! i) \<noteq> O_Fin then 1 else 0)
        = d_live (take i sts @ sts ! i # drop (Suc i) sts) + (if st_outer st' \<noteq> O_Fin then 1 else 0)"
    by (simp add: d_live_def)
  with arg_cong [where f = d_live, OF a] b show ?thesis by simp
qed

lemma d_live_same:
  "i < length sts \<Longrightarrow> (st_outer st' = O_Fin) = (st_outer (sts ! i) = O_Fin)
   \<Longrightarrow> d_live (sts[i := st']) = d_live sts"
  using d_live_update [of i sts st'] by (simp split: if_splits)

lemma d_join_init: "d_join (d_init app inp cls)"
  by (simp add: d_join_def d_init_def d_live_def)

lemma d_join_step:
  assumes "dstep l s = Some s'" "d_join s"
  shows "d_join s'"
  using assms(1)
proof (cases rule: dstep_cases)
  case (Create x xs)
  with assms(2) show ?thesis by (simp add: d_join_def d_live_def new_stage_def)
next
  case (OWgDone i)
  from d_live_update [OF OWgDone(2), of "(d_stages s ! i)\<lparr>st_outer := O_Fin\<rparr>"] OWgDone(3)
  have "d_live ((d_stages s)[i := (d_stages s ! i)\<lparr>st_outer := O_Fin\<rparr>]) + 1 = d_live (d_stages s)"
    by simp
  with assms(2) OWgDone show ?thesis by (auto simp: d_join_def)
qed (use assms(2) in \<open>auto simp: d_join_def d_live_same\<close>)

lemma d_join_all_finished:
  assumes "d_join s" "d_m s = D_Ret" "i < length (d_stages s)"
  shows "st_outer (d_stages s ! i) = O_Fin"
proof -
  from assms(1,2) have "filter (\<lambda>st. st_outer st \<noteq> O_Fin) (d_stages s) = []"
    by (auto simp add: d_join_def d_live_def)
  with assms(3) show ?thesis by (auto simp: filter_empty_conv)
qed


lemma d_fins_run:
  "run dstep sched s = Some s' \<Longrightarrow> d_inv s \<Longrightarrow> d_fin s \<Longrightarrow> d_join s
   \<Longrightarrow> d_fin s' \<and> d_join s'"
proof (induction sched arbitrary: s)
  case Nil
  then show ?case by simp
next
  case (Cons l ls)
  from Cons.prems(1) obtain s1 where 1: "dstep l s = Some s1" and 2: "run dstep ls s1 = Some s'"
    by (auto split: option.splits)
  from Cons.IH [OF 2 d_inv_step [OF 1 Cons.prems(2)] d_fin_step [OF 1 Cons.prems(2,3)]
       d_join_step [OF 1 Cons.prems(4)]]
  show ?case .
qed

lemma d_fins_reach:
  assumes "run dstep sched (d_init app inp cls) = Some s"
  shows "d_fin s" "d_join s"
  using d_fins_run [OF assms d_inv_init d_fin_init d_join_init] by simp_all

text \<open>
  Claim C1, as amended. For every execution of \<open>Display\<close> on the input \<open>inp\<close>:
  in every state, a final line for descriptor \<open>d\<close> with mark \<open>c\<close> is in the sink
  only if \<open>c\<close> is SUCCESS or FAILURE and a summary for \<open>d\<close> with status \<open>c\<close> was
  received after an earlier summary for \<open>d\<close> (the summary that first shows a
  descriptor only creates its stage, its status code is not sent on the
  channel), and the line was written by a stage of that descriptor. Once
  \<open>Display\<close> has returned, every stage has written exactly one final line,
  with its descriptor and the terminal code its inner loop took from the
  channel, if and only if its inner loop took a terminal code, and no final
  line otherwise. The codes the inner loop took, followed by those left in
  the buffer, are the codes sent on the channel; and for every descriptor
  the codes received for it are, in order, those of its stages, for each
  stage the code that created it followed by the codes sent on its channel.
  (Whether the inner loop takes a terminal code that is in the buffer when
  \<open>cli.Done()\<close> is closed is left to the \<open>select\<close>.)
\<close>

theorem Display_final_lines:
  assumes "run dstep sched (d_init app inp cls) = Some s"
  shows "(\<forall>i d c. (i, d, c) \<in> set (finals (d_sink s)) \<longrightarrow>
            (c = SUCCESS \<or> c = FAILURE) \<and> c \<in> set (tl (codes_for d inp))
            \<and> i < length (d_stages s) \<and> st_desc (d_stages s ! i) = d)
       \<and> (d_m s = D_Ret \<longrightarrow>
            (\<forall>i < length (d_stages s).
               finals_of i (d_sink s)
                 = (case first_terminal (st_rcvd (d_stages s ! i)) of
                      Some c \<Rightarrow> [(i, st_desc (d_stages s ! i), c)]
                    | None \<Rightarrow> [])
               \<and> ((length (finals_of i (d_sink s)) = 1)
                    = (\<exists>c \<in> set (st_rcvd (d_stages s ! i)). c \<noteq> PENDING))
               \<and> length (finals_of i (d_sink s)) \<le> 1
               \<and> st_rcvd (d_stages s ! i) @ st_codes (d_stages s ! i) = st_fwd (d_stages s ! i)))
       \<and> (\<forall>d. fwd_for d (sigs (d_stages s)) @ d_pend s d = codes_for d (d_seen s))
       \<and> d_seen s @ d_input s = inp"
proof -
  note inv = d_invs_reach [OF assms]
  note fin = d_fins_reach [OF assms]
  have a: "(c = SUCCESS \<or> c = FAILURE) \<and> c \<in> set (tl (codes_for d inp))
            \<and> i < length (d_stages s) \<and> st_desc (d_stages s ! i) = d"
    if m: "(i, d, c) \<in> set (finals (d_sink s))" for i d c
  proof -
    from m have fl: "Final i d c \<in> set (d_sink s)" by (simp add: finals_set)
    with inv(1) have i: "i < length (d_stages s)" by (auto simp: d_inv_def)
    let ?st = "d_stages s ! i"
    from inv(1) i have st: "stage_inv (d_sink s) i ?st" by (rule d_inv_stage)
    with fl have d: "d = st_desc ?st" and r: "c \<in> set (st_rcvd ?st)" and p: "c \<noteq> PENDING"
      by (auto simp: stage_inv_def)
    from st have "st_rcvd ?st @ st_codes ?st = st_fwd ?st" by (simp add: stage_inv_def)
    with r have f: "c \<in> set (st_fwd ?st)" by (metis Un_iff set_append)
    have "c \<in> set (tl (fwd_for d (sigs (d_stages s))))"
      using i sigs_nth [OF i] f unfolding d [symmetric]
      by (intro in_tl_fwd_for [where i = i and f = "st_first ?st" and w = "st_fwd ?st"])
         (simp_all add: sigs_def)
    then have "c \<in> set (tl (fwd_for d (sigs (d_stages s)) @ d_pend s d))" by (rule in_tl_append)
    with inv(3) have "c \<in> set (tl (codes_for d (d_seen s)))" by (simp add: d_part_def)
    then have "c \<in> set (tl (codes_for d (d_seen s) @ codes_for d (d_input s)))"
      by (rule in_tl_append)
    with inv(3) have "c \<in> set (tl (codes_for d inp))"
      by (metis codes_for_app d_part_def)
    moreover from p have "c = SUCCESS \<or> c = FAILURE" by (cases c) simp_all
    ultimately show ?thesis using i d by simp
  qed
  have b: "finals_of i (d_sink s)
             = (case first_terminal (st_rcvd (d_stages s ! i)) of
                  Some c \<Rightarrow> [(i, st_desc (d_stages s ! i), c)] | None \<Rightarrow> [])
           \<and> ((length (finals_of i (d_sink s)) = 1)
                = (\<exists>c \<in> set (st_rcvd (d_stages s ! i)). c \<noteq> PENDING))
           \<and> length (finals_of i (d_sink s)) \<le> 1
           \<and> st_rcvd (d_stages s ! i) @ st_codes (d_stages s ! i) = st_fwd (d_stages s ! i)"
    if ret: "d_m s = D_Ret" and i: "i < length (d_stages s)" for i
  proof -
    let ?st = "d_stages s ! i"
    from d_join_all_finished [OF fin(2) ret i] have o: "st_outer ?st \<noteq> O_Loop" by simp
    from d_fin_stage [OF fin(1) i] o
    have f: "finals_of i (d_sink s)
             = (case first_terminal (st_rcvd ?st) of Some c \<Rightarrow> [(i, st_desc ?st, c)] | None \<Rightarrow> [])"
      by (simp add: stage_fin_def)
    have e: "(first_terminal (st_rcvd ?st) \<noteq> None) = (\<exists>c \<in> set (st_rcvd ?st). c \<noteq> PENDING)"
      by (auto simp add: first_terminal_def find_None_iff)
    from inv(1) i have "stage_inv (d_sink s) i ?st" by (rule d_inv_stage)
    then have q: "st_rcvd ?st @ st_codes ?st = st_fwd ?st" by (simp add: stage_inv_def)
    from f e q show ?thesis by (cases "first_terminal (st_rcvd ?st)") auto
  qed
  from inv(3) have c: "\<forall>d. fwd_for d (sigs (d_stages s)) @ d_pend s d = codes_for d (d_seen s)"
    and d: "d_seen s @ d_input s = inp" by (simp_all add: d_part_def)
  from a b c d show ?thesis by blast
qed

text \<open>
  Claim C5, as amended. In every state of every execution, each stage (each
  render state, numbered by creation) has written at most one final line;
  a final line of stage \<open>i\<close> carries the descriptor of stage \<open>i\<close>, and once it is
  written the outer loop of the stage is over. (The descriptor is then
  deleted from \<open>ongoing\<close>, and a later summary for it creates a new stage: see
  the counterexample.)
\<close>

theorem Display_one_final_per_stage:
  assumes "run dstep sched (d_init app inp cls) = Some s"
  shows "length (filter (\<lambda>(j, d, c). j = i) (finals (d_sink s))) \<le> 1
       \<and> (\<forall>d c. (i, d, c) \<in> set (finals (d_sink s)) \<longrightarrow>
             i < length (d_stages s) \<and> d = st_desc (d_stages s ! i)
             \<and> st_outer (d_stages s ! i) \<noteq> O_Loop)"
proof -
  note inv = d_invs_reach [OF assms(1)]
  have a: "length (filter (is_final_of i) (d_sink s)) \<le> 1"
  proof (cases "i < length (d_stages s)")
    case True
    with inv(1) show ?thesis by (auto simp: d_inv_def stage_inv_def)
  next
    case False
    with inv(1) have "\<And>d c. Final i d c \<notin> set (d_sink s)" by (auto simp: d_inv_def)
    then have "filter (is_final_of i) (d_sink s) = []"
      by (auto simp: filter_empty_conv is_final_of_def split: sink_write.splits)
    then show ?thesis by simp
  qed
  have b: "i < length (d_stages s) \<and> d = st_desc (d_stages s ! i) \<and> st_outer (d_stages s ! i) \<noteq> O_Loop"
    if "(i, d, c) \<in> set (finals (d_sink s))" for d c
  proof -
    from that have fin: "Final i d c \<in> set (d_sink s)" by (simp add: finals_set)
    with inv(1) have i: "i < length (d_stages s)" by (auto simp: d_inv_def)
    from inv(1) i have st: "stage_inv (d_sink s) i (d_stages s ! i)" by (rule d_inv_stage)
    from fin have "filter (is_final_of i) (d_sink s) \<noteq> []"
      by (auto simp: filter_empty_conv is_final_of_def intro!: bexI [of _ "Final i d c"])
    with st fin i show ?thesis by (auto simp: stage_inv_def)
  qed
  from a b show ?thesis by (simp add: finals_filter)
qed

text \<open>
  Claim C7, as amended. In every state of every execution, for every stage:
  the codes its inner loop received from the channel, followed by the code
  still buffered, are exactly the codes \<open>Display\<close> sent on the channel, in
  order; what the inner loop obtained from \<open><-codes\<close> is that, followed by zero
  values (PENDING) once the channel is closed and drained. For every
  descriptor \<open>d\<close>, the codes received for \<open>d\<close> so far are, in order, those of the
  stages of \<open>d\<close> in the order of creation, for each stage the code of the
  summary that created it (never sent on the channel) followed by the codes
  sent on its channel, and last the code \<open>Display\<close> is about to send. The
  summaries taken so far are a prefix of the input.
\<close>

theorem Display_stage_delivery:
  assumes "run dstep sched (d_init app inp cls) = Some s"
      and "i < length (d_stages s)"
  shows "st_rcvd (d_stages s ! i) @ st_codes (d_stages s ! i) = st_fwd (d_stages s ! i)
       \<and> delivered (d_stages s ! i)
           = st_rcvd (d_stages s ! i) @ replicate (st_zeros (d_stages s ! i)) PENDING
       \<and> (0 < st_zeros (d_stages s ! i) \<longrightarrow>
            st_codes_closed (d_stages s ! i) \<and> st_rcvd (d_stages s ! i) = st_fwd (d_stages s ! i))
       \<and> fwd_for d (sigs (d_stages s)) @ d_pend s d = codes_for d (d_seen s)
       \<and> d_seen s @ d_input s = inp"
proof -
  note inv = d_invs_reach [OF assms(1)]
  from inv(1) assms(2) have "stage_inv (d_sink s) i (d_stages s ! i)" by (rule d_inv_stage)
  then have "st_rcvd (d_stages s ! i) @ st_codes (d_stages s ! i) = st_fwd (d_stages s ! i)"
    "0 < st_zeros (d_stages s ! i) \<longrightarrow>
       st_codes_closed (d_stages s ! i) \<and> st_rcvd (d_stages s ! i) = st_fwd (d_stages s ! i)"
    by (auto simp: stage_inv_def)
  with inv(3) show ?thesis by (simp add: d_part_def delivered_def)
qed

lemma dstep_in_actions:
  assumes "dstep l s = Some s'"
  shows "l = DCancel \<or> l \<in> set (d_actions s)"
  using assms
proof (cases rule: dstep_cases)
  case (Close d vis i)
  from Close(3) have "(d, i) \<in> set (d_ongoing s)" by (rule map_of_SomeD)
  with Close(1) show ?thesis by (force simp: d_actions_def)
qed (auto simp: d_actions_def)


text \<open>The definitions that a concrete run of \<open>Display\<close> unfolds.\<close>

lemmas d_eval = d_init_def Init_def Stop_def close_done_def set_stage_def new_stage_def
  inner_received_def summary_def d_enabled_def d_actions_def codes_for_def delivered_def

text \<open>
  Claim C1 as stated fails. The scenario of the claim: "build" SUCCESS,
  "deploy" PENDING, "deploy" FAILURE, then the input is closed. \<open>Display\<close>
  returns with one final line, for "deploy"; the SUCCESS of "build" came
  with the summary that created the stage and was never sent to its
  renderer, which ends with a bare carriage return.
\<close>

theorem scenario_has_one_final_line:
  "map_option (\<lambda>s. (d_m s, finals (d_sink s)))
     (run dstep [MRecv, MRecv, MRecv, MSend, IRecv 1, OMsg 1, ODel 1, OWgDone 1, MClosed,
                 MClose ''build'', MStop, IDone 0, OMsg 0, ODel 0, OWgDone 0, MWait]
        (d_init ''app'' [summary ''build'' SUCCESS, summary ''deploy'' PENDING,
                         summary ''deploy'' FAILURE] True))
   = Some (D_Ret, [(1, ''deploy'', FAILURE)])"
  by (simp add: d_eval)

text \<open>
  The amended claim C1 does not promise the line for a terminal code that is
  still in the buffer when \<open>cli.Done()\<close> is closed. "deploy" PENDING, "deploy"
  FAILURE, then the input is closed: the FAILURE is sent on the channel, the
  deferred function closes the channel and \<open>cli.done\<close>, and the inner \<open>select\<close>,
  with both cases ready, takes \<open>cli.Done()\<close>. \<open>Display\<close> returns with no final
  line and the FAILURE left in the buffer.
\<close>

theorem buffered_code_lost_to_Done:
  "map_option (\<lambda>s. (d_m s, finals (d_sink s), map st_codes (d_stages s), map st_rcvd (d_stages s)))
     (run dstep [MRecv, MRecv, MSend, MClosed, MClose ''deploy'', MStop, IDone 0, OMsg 0,
                 ODel 0, OWgDone 0, MWait]
        (d_init ''app'' [summary ''deploy'' PENDING, summary ''deploy'' FAILURE] True))
   = Some (D_Ret, [], [[FAILURE]], [[]])"
  by (simp add: d_eval)

text \<open>
  Claim C5 as stated fails. "build" is finalized with SUCCESS and its
  goroutine deletes it from \<open>ongoing\<close>; the next summary for "build" creates a
  second stage for the same descriptor, which the following FAILURE
  finalizes: two stages and two final lines for one descriptor.
\<close>

theorem finalized_descriptor_recreated:
  "map_option (\<lambda>s. (d_m s, finals (d_sink s), map st_desc (d_stages s)))
     (run dstep [MRecv, MRecv, MSend, IRecv 0, OMsg 0, ODel 0, OWgDone 0,
                 MRecv, MRecv, MSend, IRecv 1, OMsg 1, ODel 1, OWgDone 1,
                 MClosed, MStop, MWait]
        (d_init ''app'' [summary ''build'' PENDING, summary ''build'' SUCCESS,
                         summary ''build'' PENDING, summary ''build'' FAILURE] True))
   = Some (D_Ret, [(0, ''build'', SUCCESS), (1, ''build'', FAILURE)], [''build'', ''build''])"
  by (simp add: d_eval)

text \<open>
  Claim C7 as stated fails. One summary, "build" SUCCESS, then the input is
  closed: the code received for "build" is SUCCESS, and the renderer of
  "build" has been delivered nothing when \<open>Display\<close> returns.
\<close>

theorem first_status_code_not_delivered:
  "map_option (\<lambda>s. (d_m s, map delivered (d_stages s), codes_for ''build'' (d_seen s)))
     (run dstep [MRecv, MClosed, MClose ''build'', MStop, IDone 0, OMsg 0, ODel 0, OWgDone 0, MWait]
        (d_init ''app'' [summary ''build'' SUCCESS] True))
   = Some (D_Ret, [[]], [SUCCESS])"
  by (simp add: d_eval)

text \<open>
  Claim C9 fails on the code. Stage "build" has written its final line and
  its goroutine is about to execute \<open>delete(ongoing, desc)\<close>; the main loop of
  \<open>Display\<close> is at its \<open>select\<close> with a summary for "deploy" ready. Both steps
  are enabled in the same state: the main loop looks "deploy" up in \<open>ongoing\<close>
  and inserts it, the goroutine of the stage deletes "build" from \<open>ongoing\<close>.
  The map is written by a goroutine other than the main loop, with nothing
  that orders the two accesses.
\<close>

theorem ongoing_map_race:
  "map_option (\<lambda>s. (d_m s, d_ongoing s, d_enabled s))
     (run dstep [MRecv, MRecv, MSend, IRecv 0, OMsg 0]
        (d_init ''app'' [summary ''build'' PENDING, summary ''build'' SUCCESS,
                         summary ''deploy'' PENDING] True))
   = Some (D_Loop, [(''build'', 0)], [MRecv, ODel 0])
   \<and> map_option d_ongoing
     (run dstep [MRecv, MRecv, MSend, IRecv 0, OMsg 0, MRecv]
        (d_init ''app'' [summary ''build'' PENDING, summary ''build'' SUCCESS,
                         summary ''deploy'' PENDING] True))
   = Some [(''deploy'', 1), (''build'', 0)]
   \<and> map_option d_ongoing
     (run dstep [MRecv, MRecv, MSend, IRecv 0, OMsg 0, ODel 0]
        (d_init ''app'' [summary ''build'' PENDING, summary ''build'' SUCCESS,
                         summary ''deploy'' PENDING] True))
   = Some []
   \<and> actor MRecv = Display_main \<and> actor (ODel 0) = Stage_outer 0"
  by (simp add: d_eval)

text \<open>
  Claim C6 fails on the code (cancellation). Three PENDING summaries for
  "build"; the context is cancelled after the first. The goroutines of \<open>Init\<close>
  close \<open>cli.done\<close> and the inner loop of the stage leaves by \<open>cli.Done()\<close>. The
  \<open>select\<close> of \<open>Display\<close> still takes the next two summaries: the first code
  fills the buffer of the stage's channel, the second send blocks, since
  nobody receives from that channel any more. The outer loop writes its
  carriage return, deletes "build" and calls \<open>wg.Done()\<close>. No action of the
  program is enabled: \<open>Display\<close> never returns.
\<close>

theorem Display_cancel_deadlock:
  "map_option (\<lambda>s. (d_m s, d_root_cancelled s, done_closed (d_cli s), d_enabled s,
                    map st_inner (d_stages s), map st_outer (d_stages s), finals (d_sink s)))
     (run dstep [MRecv, DCancel, G1, G2, IDone 0, MRecv, MSend, MRecv, OMsg 0, ODel 0, OWgDone 0]
        (d_init ''app'' [summary ''build'' PENDING, summary ''build'' PENDING,
                         summary ''build'' PENDING] False))
   = Some (D_Send 0 PENDING, True, True, [], [I_Fin], [O_Fin], [])"
  by (simp add: d_eval)


theorem Display_final_lines_witness:
  "map_option (\<lambda>s. (d_m s, finals (d_sink s), map st_rcvd (d_stages s)))
     (run dstep [MRecv, MRecv, MRecv, MSend, IRecv 1, OMsg 1, ODel 1, OWgDone 1, MClosed,
                 MClose ''build'', MStop, IDone 0, OMsg 0, ODel 0, OWgDone 0, MWait]
        (d_init ''app'' [summary ''build'' SUCCESS, summary ''deploy'' PENDING,
                         summary ''deploy'' FAILURE] True))
   = Some (D_Ret, [(1, ''deploy'', FAILURE)], [[], [FAILURE]])
   \<and> FAILURE \<in> set (tl (codes_for ''deploy'' [summary ''build'' SUCCESS, summary ''deploy'' PENDING,
                         summary ''deploy'' FAILURE]))
   \<and> (length (finals_of 1 (d_sink (the
        (run dstep [MRecv, MRecv, MRecv, MSend, IRecv 1, OMsg 1, ODel 1, OWgDone 1, MClosed,
                 MClose ''build'', MStop, IDone 0, OMsg 0, ODel 0, OWgDone 0, MWait]
        (d_init ''app'' [summary ''build'' SUCCESS, summary ''deploy'' PENDING,
                         summary ''deploy'' FAILURE] True))))) = 1)
   \<and> finals_of 0 (d_sink (the
        (run dstep [MRecv, MRecv, MRecv, MSend, IRecv 1, OMsg 1, ODel 1, OWgDone 1, MClosed,
                 MClose ''build'', MStop, IDone 0, OMsg 0, ODel 0, OWgDone 0, MWait]
        (d_init ''app'' [summary ''build'' SUCCESS, summary ''deploy'' PENDING,
                         summary ''deploy'' FAILURE] True)))) = []"
proof -
  let ?inp = "[summary ''build'' SUCCESS, summary ''deploy'' PENDING, summary ''deploy'' FAILURE]"
  let ?r = "run dstep [MRecv, MRecv, MRecv, MSend, IRecv 1, OMsg 1, ODel 1, OWgDone 1, MClosed,
                 MClose ''build'', MStop, IDone 0, OMsg 0, ODel 0, OWgDone 0, MWait]
        (d_init ''app'' ?inp True)"
  have r: "?r = Some (the ?r)" by (simp add: d_eval)
  have m: "(1, ''deploy'', FAILURE) \<in> set (finals (d_sink (the ?r)))" by (simp add: d_eval)
  have ret: "d_m (the ?r) = D_Ret" by (simp add: d_eval)
  have i1: "1 < length (d_stages (the ?r))" and i0: "0 < length (d_stages (the ?r))"
    by (simp_all add: d_eval)
  have r1: "\<exists>c \<in> set (st_rcvd (d_stages (the ?r) ! 1)). c \<noteq> PENDING" by (simp add: d_eval)
  have r0: "first_terminal (st_rcvd (d_stages (the ?r) ! 0)) = None"
    by (simp add: d_eval first_terminal_def)
  have g: "map_option (\<lambda>s. (d_m s, finals (d_sink s), map st_rcvd (d_stages s))) ?r
           = Some (D_Ret, [(1, ''deploy'', FAILURE)], [[], [FAILURE]])"
    by (simp add: d_eval)
  note t = Display_final_lines [OF r]
  from t m have a: "FAILURE \<in> set (tl (codes_for ''deploy'' ?inp))" by blast
  from t ret i1 r1 have b: "length (finals_of 1 (d_sink (the ?r))) = 1" by blast
  from t ret i0 have "finals_of 0 (d_sink (the ?r))
      = (case first_terminal (st_rcvd (d_stages (the ?r) ! 0)) of
           Some c \<Rightarrow> [(0, st_desc (d_stages (the ?r) ! 0), c)] | None \<Rightarrow> [])" by blast
  with r0 have c: "finals_of 0 (d_sink (the ?r)) = []" by simp
  from g a b c show ?thesis by (intro conjI)
qed

theorem Display_one_final_per_stage_witness:
  "map_option (\<lambda>s. finals (d_sink s))
     (run dstep [MRecv, MRecv, MSend, IRecv 0, OMsg 0]
        (d_init ''app'' [summary ''build'' PENDING, summary ''build'' SUCCESS] True))
   = Some [(0, ''build'', SUCCESS)]
   \<and> length (filter (\<lambda>(j, d, c). j = 0) (finals (d_sink (the
     (run dstep [MRecv, MRecv, MSend, IRecv 0, OMsg 0]
        (d_init ''app'' [summary ''build'' PENDING, summary ''build'' SUCCESS] True)))))) \<le> 1"
proof -
  let ?r = "run dstep [MRecv, MRecv, MSend, IRecv 0, OMsg 0]
        (d_init ''app'' [summary ''build'' PENDING, summary ''build'' SUCCESS] True)"
  have r: "?r = Some (the ?r)" by (simp add: d_eval)
  have g: "map_option (\<lambda>s. finals (d_sink s)) ?r = Some [(0, ''build'', SUCCESS)]"
    by (simp add: d_eval)
  note t = Display_one_final_per_stage [OF r, of 0]
  show ?thesis by (rule conjI [OF g]) (rule t [THEN conjunct1])
qed

theorem Display_stage_delivery_witness:
  "map_option (\<lambda>s. map (\<lambda>st. (st_first st, st_fwd st, st_codes st, delivered st)) (d_stages s))
     (run dstep [MRecv, MRecv, MSend, MRecv, IRecv 0, MSend]
        (d_init ''app'' [summary ''build'' PENDING, summary ''build'' PENDING,
                         summary ''build'' SUCCESS] True))
   = Some [(PENDING, [PENDING, SUCCESS], [SUCCESS], [PENDING])]
   \<and> d_seen (the (run dstep [MRecv, MRecv, MSend, MRecv, IRecv 0, MSend]
        (d_init ''app'' [summary ''build'' PENDING, summary ''build'' PENDING,
                         summary ''build'' SUCCESS] True)))
     @ d_input (the (run dstep [MRecv, MRecv, MSend, MRecv, IRecv 0, MSend]
        (d_init ''app'' [summary ''build'' PENDING, summary ''build'' PENDING,
                         summary ''build'' SUCCESS] True)))
     = [summary ''build'' PENDING, summary ''build'' PENDING, summary ''build'' SUCCESS]"
proof -
  let ?r = "run dstep [MRecv, MRecv, MSend, MRecv, IRecv 0, MSend]
        (d_init ''app'' [summary ''build'' PENDING, summary ''build'' PENDING,
                         summary ''build'' SUCCESS] True)"
  have r: "?r = Some (the ?r)" by (simp add: d_eval)
  have i: "0 < length (d_stages (the ?r))" by (simp add: d_eval)
  have g: "map_option (\<lambda>s. map (\<lambda>st. (st_first st, st_fwd st, st_codes st, delivered st)) (d_stages s)) ?r
           = Some [(PENDING, [PENDING, SUCCESS], [SUCCESS], [PENDING])]"
    by (simp add: d_eval)
  note t = Display_stage_delivery [OF r i, of "''build''"]
  show ?thesis
    by (rule conjI [OF g])
       (rule t [THEN conjunct2, THEN conjunct2, THEN conjunct2, THEN conjunct2])
qed


end
